theory Spec2Isabelle
  imports Complex_Main "HOL-Library.Monad_Syntax" "HOL-Library.Multiset" "HOL-Library.Log_Nat"
begin

section \<open>SHEATH-PIC: a 1D-1V particle-in-cell plasma sheath code\<close>

text \<open>
  A shallow embedding of \<^verbatim>\<open>sheath_steady.cpp\<close>. The C++ type \<^verbatim>\<open>double\<close> is
  modelled by \<^typ>\<open>real\<close>: the values the program computes are followed in exact
  arithmetic. The one place where rounding decides more than a value, the logical
  coordinate that becomes an array index, is also modelled in binary64 (\<open>XtoL64\<close>). The
  heap arrays of the program (\<^verbatim>\<open>double *\<close>) are lists that carry their allocated
  length. An access whose index depends on a particle and leaves the array is undefined
  behaviour in C++; the model returns \<^term>\<open>None\<close> there. The loops over the nodes use
  indices below \<open>ni\<close> on arrays of \<open>ni\<close> entries; the theorems about them assume
  arrays of that length.
\<close>

subsection \<open>Constants\<close>

definition EPS :: real where "EPS = 885418782 / 10 ^ 20"
definition K :: real where "K = 138065 / 10 ^ 28"
definition ME :: real where "ME = 910938215 / 10 ^ 39"
definition QE :: real where "QE = 1602176565 / 10 ^ 28"
definition AMU :: real where "AMU = 1660538921 / 10 ^ 36"
definition EV_TO_K :: real where "EV_TO_K = 1160452 / 100"

definition PLASMA_DEN :: real where "PLASMA_DEN = 10 ^ 16"
definition DX :: real where "DX = 1 / 10 ^ 4"
definition DT :: real where "DT = 5 / 10 ^ 11"
definition ELECTRON_TEMP :: real where "ELECTRON_TEMP = 2"
definition ION_TEMP :: real where "ION_TEMP = 1 / 10"

definition NUM_IONS :: nat where "NUM_IONS = 30000"
definition NUM_ELECTRONS :: nat where "NUM_ELECTRONS = 80000"
definition NC :: nat where "NC = 400"
definition NUM_TS :: nat where "NUM_TS = 10000"

subsection \<open>Data model\<close>

text \<open>
  \<^verbatim>\<open>class Domain\<close>: the geometry and the field arrays. \<open>ni\<close> is the number of
  nodes; every array is allocated with \<open>ni\<close> entries. The counts \<open>ni\<close> and \<open>NUM\<close>
  (\<^verbatim>\<open>int\<close> in the source, set once from positive constants and never changed) are
  natural numbers.
\<close>

record Domain =
  ni :: nat
  x0 :: real
  dx :: real
  xl :: real
  xmax :: real
  phi :: "real list"
  ef :: "real list"
  rho :: "real list"
  nde :: "real list"
  ndi :: "real list"
  veli :: "real list"
  vele :: "real list"

record Particle =
  pos :: real
  vel :: real
  ident :: int

record Species =
  part_list :: "Particle list"
  mass :: real
  charge :: real
  spwt :: real
  name :: string
  NUM :: nat
  Temp :: real
  part_id :: int

text \<open>The constructor of \<^verbatim>\<open>Species\<close>: an empty particle list, \<open>part_id = 0\<close>.\<close>

definition new_Species :: "string \<Rightarrow> real \<Rightarrow> real \<Rightarrow> real \<Rightarrow> nat \<Rightarrow> real \<Rightarrow> Species" where
  "new_Species nm m q w n T =
     \<lparr>part_list = [], mass = m, charge = q, spwt = w, name = nm, NUM = n, Temp = T,
      part_id = 0\<rparr>"

text \<open>\<^verbatim>\<open>Species::add\<close>: the particle gets the next identity and goes to the tail.\<close>

definition add :: "Species \<Rightarrow> Particle \<Rightarrow> Species" where
  "add sp part =
     sp\<lparr>part_list := part_list sp @ [part\<lparr>ident := part_id sp\<rparr>], part_id := part_id sp + 1\<rparr>"

text \<open>
  The domain as \<^verbatim>\<open>main\<close> constructs it from a node count, a spacing and an origin,
  with every field array cleared.
\<close>

definition make_domain :: "nat \<Rightarrow> real \<Rightarrow> real \<Rightarrow> Domain" where
  "make_domain n h x =
     \<lparr>ni = n, x0 = x, dx = h, xl = (real n - 1) * h, xmax = x + (real n - 1) * h,
      phi = replicate n 0, ef = replicate n 0, rho = replicate n 0, nde = replicate n 0,
      ndi = replicate n 0, veli = replicate n 0, vele = replicate n 0\<rparr>"

text \<open>
  What \<^verbatim>\<open>main\<close> establishes about the geometry: at least one cell, a positive
  spacing, and \<open>xmax = x0 + (ni - 1) * dx\<close>.
\<close>

definition domain_ok :: "Domain \<Rightarrow> bool" where
  "domain_ok d = (2 \<le> ni d \<and> 0 < dx d \<and> xl d = (real (ni d) - 1) * dx d
     \<and> xmax d = x0 d + xl d)"

subsection \<open>Random numbers and initialisation\<close>

text \<open>
  \<^verbatim>\<open>rnd()\<close> draws from a global generator (\<^verbatim>\<open>std::mt19937\<close> seeded with 0, read
  through \<^verbatim>\<open>std::uniform_real_distribution\<close>). Both are library code: the model takes
  the generator as a parameter, a transition \<open>rnd\<close> on generator states \<open>'g\<close> that
  returns the draw and the next state. C++ leaves the order of the three calls in
  \<^verbatim>\<open>rnd()+rnd()+rnd()\<close> open; their sum does not depend on it. The constructor of
  \<^verbatim>\<open>Particle\<close> leaves the identity unset (0 here) and \<open>add\<close> assigns it.
\<close>

definition SampleVel :: "('g \<Rightarrow> real \<times> 'g) \<Rightarrow> real \<Rightarrow> real \<Rightarrow> 'g \<Rightarrow> real \<times> 'g" where
  "SampleVel rnd T m g =
     (let v_th = sqrt (2 * K * T / m);
          (r1, g1) = rnd g;
          (r2, g2) = rnd g1;
          (r3, g3) = rnd g2
      in (v_th * sqrt 2 * (r1 + r2 + r3 - 15 / 10), g3))"

definition Init_body :: "('g \<Rightarrow> real \<times> 'g) \<Rightarrow> Domain \<Rightarrow> Species \<times> 'g \<Rightarrow> Species \<times> 'g" where
  "Init_body rnd d s =
     (let (sp, g) = s;
          (r, g1) = rnd g;
          x = x0 d + r * (real (ni d) - 1) * dx d;
          (v, g2) = SampleVel rnd (Temp sp * EV_TO_K) (mass sp) g1
      in (add sp \<lparr>pos = x, vel = v, ident = 0\<rparr>, g2))"

text \<open>The loop of \<^verbatim>\<open>Init\<close> runs \<^verbatim>\<open>p\<close> from 0 to \<^verbatim>\<open>NUM_IONS\<close>, for every species.\<close>

definition Init :: "('g \<Rightarrow> real \<times> 'g) \<Rightarrow> Domain \<Rightarrow> Species \<Rightarrow> 'g \<Rightarrow> Species \<times> 'g" where
  "Init rnd d sp g = fold (\<lambda>p s. Init_body rnd d s) [0..<NUM_IONS] (sp, g)"

subsection \<open>Deposition and interpolation\<close>

text \<open>
  \<^verbatim>\<open>XtoL\<close> in exact arithmetic. \<open>XtoL64\<close> below is the same computation with both
  operations rounded to binary64.
\<close>

definition XtoL :: "Domain \<Rightarrow> real \<Rightarrow> real" where
  "XtoL d p = (p - x0 d) / dx d"

text \<open>The cast \<^verbatim>\<open>(int)lc\<close> truncates towards zero.\<close>

definition trunc_int :: "real \<Rightarrow> int" where
  "trunc_int r = (if 0 \<le> r then \<lfloor>r\<rfloor> else \<lceil>r\<rceil>)"

definition scatter :: "real \<Rightarrow> real \<Rightarrow> real list \<Rightarrow> real list option" where
  "scatter lc val field =
     (let i = trunc_int lc; di = lc - of_int i in
      if 0 \<le> i \<and> nat i + 1 < length field then
        (let f1 = field[nat i := field ! nat i + val * (1 - di)] in
         Some (f1[nat i + 1 := f1 ! (nat i + 1) + val * di]))
      else None)"

definition gather :: "real \<Rightarrow> real list \<Rightarrow> real option" where
  "gather lc field =
     (let i = trunc_int lc; di = lc - of_int i in
      if 0 \<le> i \<and> nat i + 1 < length field then
        Some (field ! nat i * (1 - di) + field ! (nat i + 1) * di)
      else None)"

text \<open>\<^verbatim>\<open>memset(field, 0, sizeof(double) * n)\<close>.\<close>

definition memset0 :: "nat \<Rightarrow> real list \<Rightarrow> real list" where
  "memset0 n field = fold (\<lambda>i f. f[i := 0]) [0..<n] field"

text \<open>
  The range-for loop of both scatter operations over the particle list; \<open>val\<close> is the
  quantity a particle deposits.
\<close>

fun scatter_parts :: "Domain \<Rightarrow> (Particle \<Rightarrow> real) \<Rightarrow> Particle list \<Rightarrow> real list \<Rightarrow> real list option" where
  "scatter_parts d val [] field = Some field"
| "scatter_parts d val (p # ps) field =
     (case scatter (XtoL d (pos p)) (val p) field of
        None \<Rightarrow> None
      | Some f \<Rightarrow> scatter_parts d val ps f)"

text \<open>The tail of both scatter operations: divide by the cell volume, double the ends.\<close>

definition to_density :: "Domain \<Rightarrow> real list \<Rightarrow> real list" where
  "to_density d field =
     (let f1 = fold (\<lambda>i f. f[i := f ! i / dx d]) [0..<ni d] field;
          f2 = f1[0 := f1 ! 0 * 2]
      in f2[ni d - 1 := f2 ! (ni d - 1) * 2])"

definition ScatterSpecies :: "Domain \<Rightarrow> Species \<Rightarrow> real list \<Rightarrow> real list option" where
  "ScatterSpecies d species field =
     (case scatter_parts d (\<lambda>p. spwt species) (part_list species) (memset0 (ni d) field) of
        None \<Rightarrow> None
      | Some f \<Rightarrow> Some (to_density d f))"

definition ScatterSpeciesVel :: "Domain \<Rightarrow> Species \<Rightarrow> real list \<Rightarrow> real list option" where
  "ScatterSpeciesVel d species field =
     (case scatter_parts d (\<lambda>p. spwt species * vel p) (part_list species)
             (memset0 (ni d) field) of
        None \<Rightarrow> None
      | Some f \<Rightarrow> Some (to_density d f))"

subsection \<open>Particle integrator\<close>

text \<open>
  The body of the loop of \<^verbatim>\<open>PushSpecies\<close> up to the boundary test: the velocity is
  advanced in place, then the position, which reads the velocity just written.
\<close>

definition push_particle :: "Domain \<Rightarrow> real \<Rightarrow> real list \<Rightarrow> Particle \<Rightarrow> Particle option" where
  "push_particle d qm field part =
     (let lc = XtoL d (pos part) in
      case gather lc field of
        None \<Rightarrow> None
      | Some part_ef \<Rightarrow>
          (let part1 = part\<lparr>vel := vel part + DT * qm * part_ef\<rparr>
           in Some (part1\<lparr>pos := pos part1 + DT * vel part1\<rparr>)))"

definition left_domain :: "Domain \<Rightarrow> Particle \<Rightarrow> bool" where
  "left_domain d part = (pos part < x0 d \<or> xmax d \<le> pos part)"

text \<open>\<^verbatim>\<open>list::erase\<close> at the iterator: the element goes, the iterator stays on its successor.\<close>

definition erase :: "nat \<Rightarrow> 'a list \<Rightarrow> 'a list" where
  "erase k xs = take k xs @ drop (Suc k) xs"

text \<open>
  The \<^verbatim>\<open>while\<close> loop of \<^verbatim>\<open>PushSpecies\<close>. The iterator \<^verbatim>\<open>it\<close> is the index of the
  current element; \<^verbatim>\<open>end()\<close> is the length of the list.
\<close>

function PushSpecies_loop :: "Domain \<Rightarrow> real \<Rightarrow> real list \<Rightarrow> Particle list \<Rightarrow> nat \<Rightarrow> Particle list option" where
  "PushSpecies_loop d qm field ps it =
     (if it < length ps then
        (case push_particle d qm field (ps ! it) of
           None \<Rightarrow> None
         | Some part \<Rightarrow>
             if left_domain d part
             then PushSpecies_loop d qm field (erase it (ps[it := part])) it
             else PushSpecies_loop d qm field (ps[it := part]) (Suc it))
      else Some ps)"
  by pat_completeness auto
termination
  by (relation "measure (\<lambda>(d, qm, field, ps, it). length ps - it)")
     (auto simp: erase_def)

definition PushSpecies :: "Domain \<Rightarrow> Species \<Rightarrow> real list \<Rightarrow> Species option" where
  "PushSpecies d species field =
     (let qm = charge species / mass species in
      case PushSpecies_loop d qm field (part_list species) 0 of
        None \<Rightarrow> None
      | Some ps \<Rightarrow> Some (species\<lparr>part_list := ps\<rparr>))"

fun rewind_parts :: "Domain \<Rightarrow> real \<Rightarrow> real list \<Rightarrow> Particle list \<Rightarrow> Particle list option" where
  "rewind_parts d qm field [] = Some []"
| "rewind_parts d qm field (p # ps) =
     (case gather (XtoL d (pos p)) field of
        None \<Rightarrow> None
      | Some part_ef \<Rightarrow>
          (case rewind_parts d qm field ps of
             None \<Rightarrow> None
           | Some ps' \<Rightarrow> Some (p\<lparr>vel := vel p - 5 / 10 * DT * qm * part_ef\<rparr> # ps')))"

definition RewindSpecies :: "Domain \<Rightarrow> Species \<Rightarrow> real list \<Rightarrow> Species option" where
  "RewindSpecies d species field =
     (let qm = charge species / mass species in
      case rewind_parts d qm field (part_list species) of
        None \<Rightarrow> None
      | Some ps \<Rightarrow> Some (species\<lparr>part_list := ps\<rparr>))"

subsection \<open>Field solver\<close>

text \<open>\<^verbatim>\<open>ComputeRho\<close>; the noise filter under \<^verbatim>\<open>if(false)\<close> never runs.\<close>

definition ComputeRho :: "Species \<Rightarrow> Species \<Rightarrow> Domain \<Rightarrow> Domain" where
  "ComputeRho ions electrons d =
     d\<lparr>rho := fold (\<lambda>i r. r[i := charge ions * ndi d ! i + charge electrons * nde d ! i])
                [0..<ni d] (memset0 (ni d) (rho d))\<rparr>"

text \<open>One sweep of the relaxation solver over the interior nodes, in place.\<close>

definition sor_sweep :: "Domain \<Rightarrow> real list \<Rightarrow> real list \<Rightarrow> real list" where
  "sor_sweep d r p =
     fold (\<lambda>i p.
            (let g = 5 / 10 * (p ! (i - 1) + p ! (i + 1) + dx d * dx d * r ! i / EPS)
             in p[i := p ! i + 14 / 10 * (g - p ! i)]))
          [1..<ni d - 1] p"

text \<open>The convergence test: the accumulated squares, then \<^verbatim>\<open>L2 = sqrt(sum)/ni\<close>.\<close>

definition residual_sum :: "Domain \<Rightarrow> real list \<Rightarrow> real list \<Rightarrow> real" where
  "residual_sum d r p =
     fold (\<lambda>i s.
            (let R = - r ! i / EPS - (p ! (i - 1) - 2 * p ! i + p ! (i + 1)) / (dx d * dx d)
             in s + R * R))
          [1..<ni d - 1] 0"

definition L2_norm :: "Domain \<Rightarrow> real list \<Rightarrow> real list \<Rightarrow> real" where
  "L2_norm d r p = sqrt (residual_sum d r p) / real (ni d)"

function SolvePotential_loop :: "Domain \<Rightarrow> real list \<Rightarrow> nat \<Rightarrow> real list \<Rightarrow> bool \<times> real list" where
  "SolvePotential_loop d r it p =
     (if it < 200000 then
        (if it mod 25 = 0 \<and> L2_norm d r (sor_sweep d r p) < 1 / 10 ^ 4
         then (True, sor_sweep d r p)
         else SolvePotential_loop d r (Suc it) (sor_sweep d r p))
      else (False, p))"
  by pat_completeness auto
termination
  by (relation "measure (\<lambda>(d, r, it, p). 200000 - it)") auto

definition SolvePotential :: "Domain \<Rightarrow> real list \<Rightarrow> real list \<Rightarrow> bool \<times> real list" where
  "SolvePotential d p r = SolvePotential_loop d r 0 (p[ni d - 1 := 0, 0 := 0])"

text \<open>
  The direct solver. \<open>a\<close>, \<open>b\<close>, \<open>c\<close> are fresh arrays of \<open>ni\<close> entries; every entry
  is written before it is read, so their initial content (zero here) is immaterial.
\<close>

definition thomas_forward :: "real list \<Rightarrow> real list \<Rightarrow> nat \<Rightarrow> real list \<times> real list \<Rightarrow> real list \<times> real list" where
  "thomas_forward a b n cx =
     fold (\<lambda>i (c, x).
            (let id = b ! i - c ! (i - 1) * a ! i
             in (c[i := c ! i / id], x[i := (x ! i - x ! (i - 1) * a ! i) / id])))
          [1..<n] cx"

definition thomas_back :: "real list \<Rightarrow> nat \<Rightarrow> real list \<Rightarrow> real list" where
  "thomas_back c n x = fold (\<lambda>i x. x[i := x ! i - c ! i * x ! (i + 1)]) (rev [0..<n - 1]) x"

definition SolvePotentialDirect :: "Domain \<Rightarrow> real list \<Rightarrow> real list \<Rightarrow> bool \<times> real list" where
  "SolvePotentialDirect d x r =
     (let n = ni d;
          dx2 = dx d * dx d;
          (a1, b1, c1) = fold (\<lambda>i (a, b, c). (a[i := 1], b[i := - 2], c[i := 1])) [1..<n - 1]
                           (replicate n 0, replicate n 0, replicate n 0);
          a2 = a1[0 := 0, n - 1 := 0];
          b2 = b1[0 := 1, n - 1 := 1];
          c2 = c1[0 := 0, n - 1 := 0];
          x1 = fold (\<lambda>i x. x[i := - r ! i * dx2 / EPS]) [1..<n - 1] x;
          x2 = x1[0 := 0, n - 1 := 0];
          c3 = c2[0 := c2 ! 0 / b2 ! 0];
          x3 = x2[0 := x2 ! 0 / b2 ! 0];
          (c4, x4) = thomas_forward a2 b2 n (c3, x3)
      in (True, thomas_back c4 n x4))"

definition ComputeEF :: "Domain \<Rightarrow> real list \<Rightarrow> real list \<Rightarrow> real list" where
  "ComputeEF d p e =
     (let e1 = fold (\<lambda>i e. e[i := - (p ! (i + 1) - p ! (i - 1)) / (2 * dx d)]) [1..<ni d - 1] e;
          e2 = e1[0 := - (p ! 1 - p ! 0) / dx d]
      in e2[ni d - 1 := - (p ! (ni d - 1) - p ! (ni d - 2)) / dx d])"

subsection \<open>Diagnostics and the driver\<close>

definition ComputeKE :: "Species \<Rightarrow> real" where
  "ComputeKE species =
     (fold (\<lambda>p ke. ke + vel p * vel p) (part_list species) 0
        + 5 / 10 * (spwt species * mass species)) / QE"

text \<open>
  The state of \<^verbatim>\<open>main\<close>: the global domain, the two species, the clock, and what has
  been written to \<^verbatim>\<open>results.dat\<close>, to \<^verbatim>\<open>ke.dat\<close> and (step and potential drop) to the
  console.
\<close>

record Sim =
  domain :: Domain
  ions :: Species
  electrons :: Species
  Time :: real
  results :: "real list list"
  ke_log :: "(real \<times> real \<times> real) list"
  console :: "(nat \<times> real) list"

definition Write_ts :: "Domain \<Rightarrow> real list list" where
  "Write_ts d =
     map (\<lambda>i. [real i * dx d, ndi d ! i, nde d ! i, rho d ! i, veli d ! i, vele d ! i,
                phi d ! i, ef d ! i]) [0..<ni d]"

definition max_phi :: "Domain \<Rightarrow> real" where
  "max_phi d = fold (\<lambda>i m. if phi d ! i > m then phi d ! i else m) [0..<ni d] (phi d ! 0)"

definition diagnostics :: "nat \<Rightarrow> Sim \<Rightarrow> Sim" where
  "diagnostics ts s =
     (if ts mod 200 = 0 then
        s\<lparr>console := console s @ [(ts, max_phi (domain s) - phi (domain s) ! 0)],
          ke_log := ke_log s @ [(Time s, ComputeKE (ions s), ComputeKE (electrons s))],
          results := results s @ Write_ts (domain s)\<rparr>
      else s)"

text \<open>
  Everything of \<^verbatim>\<open>main\<close> before the main loop. No draw is made after the two calls
  of \<open>Init\<close>, so the generator is not passed on.
\<close>

definition main_setup :: "('g \<Rightarrow> real \<times> 'g) \<Rightarrow> 'g \<Rightarrow> Sim option" where
  "main_setup rnd g =
     (let d = make_domain (NC + 1) DX 0;
          ion_spwt = PLASMA_DEN * xl d / real NUM_IONS;
          electron_spwt = PLASMA_DEN * xl d / real NUM_ELECTRONS;
          (i1, g1) = Init rnd d (new_Species ''Ar+ Ions'' (40 * AMU) QE ion_spwt NUM_IONS ION_TEMP) g;
          (e1, g2) = Init rnd d (new_Species ''Electrons'' ME (- QE) electron_spwt NUM_ELECTRONS
                                  ELECTRON_TEMP) g1
      in do {
        n_i \<leftarrow> ScatterSpecies d i1 (ndi d);
        n_e \<leftarrow> ScatterSpecies d e1 (nde d);
        let d1 = ComputeRho i1 e1 (d\<lparr>ndi := n_i, nde := n_e\<rparr>);
        let d2 = d1\<lparr>phi := snd (SolvePotential d1 (phi d1) (rho d1))\<rparr>;
        let d3 = d2\<lparr>ef := ComputeEF d2 (phi d2) (ef d2)\<rparr>;
        i2 \<leftarrow> RewindSpecies d3 i1 (ef d3);
        e2 \<leftarrow> RewindSpecies d3 e1 (ef d3);
        Some \<lparr>domain = d3, ions = i2, electrons = e2, Time = 0, results = [], ke_log = [],
              console = []\<rparr>
      })"

text \<open>One pass through the body of the main loop, at time step \<open>ts\<close>.\<close>

definition main_step :: "nat \<Rightarrow> Sim \<Rightarrow> Sim option" where
  "main_step ts s =
     do {
       let d = domain s;
       n_i \<leftarrow> ScatterSpecies d (ions s) (ndi d);
       n_e \<leftarrow> ScatterSpecies d (electrons s) (nde d);
       v_i \<leftarrow> ScatterSpeciesVel d (ions s) (veli d);
       v_e \<leftarrow> ScatterSpeciesVel d (electrons s) (vele d);
       let d1 = ComputeRho (ions s) (electrons s) (d\<lparr>ndi := n_i, nde := n_e, veli := v_i, vele := v_e\<rparr>);
       let d2 = d1\<lparr>phi := snd (SolvePotentialDirect d1 (phi d1) (rho d1))\<rparr>;
       let d3 = d2\<lparr>ef := ComputeEF d2 (phi d2) (ef d2)\<rparr>;
       i1 \<leftarrow> PushSpecies d3 (ions s) (ef d3);
       e1 \<leftarrow> PushSpecies d3 (electrons s) (ef d3);
       let s1 = diagnostics ts (s\<lparr>domain := d3, ions := i1, electrons := e1\<rparr>);
       Some (s1\<lparr>Time := Time s1 + DT\<rparr>)
     }"

text \<open>The main loop over the steps \<open>ts\<close> of a list, stopping where a step is undefined.\<close>

fun main_loop :: "nat list \<Rightarrow> Sim \<Rightarrow> Sim option" where
  "main_loop [] s = Some s"
| "main_loop (ts # tss) s = (case main_step ts s of None \<Rightarrow> None | Some s' \<Rightarrow> main_loop tss s')"

text \<open>\<^verbatim>\<open>main\<close> after the first \<open>n\<close> passes of the main loop; the program makes \<open>NUM_TS + 1\<close>.\<close>

definition main_upto :: "('g \<Rightarrow> real \<times> 'g) \<Rightarrow> 'g \<Rightarrow> nat \<Rightarrow> Sim option" where
  "main_upto rnd g n =
     (case main_setup rnd g of
        None \<Rightarrow> None
      | Some s \<Rightarrow> main_loop [0..<n] s)"

definition main :: "('g \<Rightarrow> real \<times> 'g) \<Rightarrow> 'g \<Rightarrow> Sim option" where
  "main rnd g = main_upto rnd g (NUM_TS + 1)"

subsection \<open>Binary64 arithmetic\<close>









subsection \<open>Reference definitions\<close>

text \<open>
  The field the specification prescribes at node \<open>i\<close>: one-sided differences at the
  two boundary nodes, the central difference inside.
\<close>

definition ef_spec :: "Domain \<Rightarrow> real list \<Rightarrow> nat \<Rightarrow> real" where
  "ef_spec d p i =
     (if i = 0 then - (p ! 1 - p ! 0) / dx d
      else if i = ni d - 1 then - (p ! (ni d - 1) - p ! (ni d - 2)) / dx d
      else - (p ! (i + 1) - p ! (i - 1)) / (2 * dx d))"

text \<open>
  The particle the specification prescribes after one step: the velocity advanced by the
  gathered field, then the position advanced by the new velocity.
\<close>

definition pushed :: "Domain \<Rightarrow> real \<Rightarrow> real list \<Rightarrow> Particle \<Rightarrow> Particle" where
  "pushed d qm field p =
     (let E = the (gather (XtoL d (pos p)) field);
          v' = vel p + DT * qm * E
      in p\<lparr>vel := v', pos := pos p + DT * v'\<rparr>)"

text \<open>
  The deposition the specification prescribes. \<open>weight d j p\<close> is the share of particle
  \<open>p\<close> that node \<open>j\<close> receives: with \<open>lc = (pos - x0) / dx\<close>, \<open>i = floor lc\<close> and
  \<open>di = lc - i\<close>, node \<open>i\<close> receives \<open>1 - di\<close> and node \<open>i + 1\<close> receives \<open>di\<close>.
  \<open>density_spec\<close> accumulates the deposits of all particles from zero, divides by
  \<open>dx\<close> and doubles the two boundary nodes.
\<close>

definition weight :: "Domain \<Rightarrow> nat \<Rightarrow> Particle \<Rightarrow> real" where
  "weight d j p =
     (let lc = (pos p - x0 d) / dx d;
          i = \<lfloor>lc\<rfloor>;
          di = lc - of_int i
      in (if int j = i then 1 - di else 0) + (if int j = i + 1 then di else 0))"

definition density_spec :: "Domain \<Rightarrow> (Particle \<Rightarrow> real) \<Rightarrow> Particle list \<Rightarrow> real list" where
  "density_spec d val ps =
     map (\<lambda>j. (\<Sum>p\<leftarrow>ps. val p * weight d j p) / dx d
               * (if j = 0 \<or> j = ni d - 1 then 2 else 1))
         [0..<ni d]"

text \<open>The first \<open>n\<close> draws of a generator from a state, and the state after them.\<close>

fun draws :: "('g \<Rightarrow> real \<times> 'g) \<Rightarrow> 'g \<Rightarrow> nat \<Rightarrow> real list" where
  "draws rnd g 0 = []"
| "draws rnd g (Suc n) = fst (rnd g) # draws rnd (snd (rnd g)) n"

fun advance :: "('g \<Rightarrow> real \<times> 'g) \<Rightarrow> 'g \<Rightarrow> nat \<Rightarrow> 'g" where
  "advance rnd g 0 = g"
| "advance rnd g (Suc n) = advance rnd (snd (rnd g)) n"

text \<open>
  The relaxation solver as the specification describes it: the potential after \<open>k\<close>
  sweeps from the input with both boundary nodes set to zero, the normalised residual
  norm, and the test made at iteration \<open>k\<close> (every 25th iteration, after its sweep).
\<close>

definition sweeps :: "Domain \<Rightarrow> real list \<Rightarrow> real list \<Rightarrow> nat \<Rightarrow> real list" where
  "sweeps d r p k = (sor_sweep d r ^^ k) (p[ni d - 1 := 0, 0 := 0])"

definition residual_norm :: "Domain \<Rightarrow> real list \<Rightarrow> real list \<Rightarrow> real" where
  "residual_norm d r p =
     sqrt (\<Sum>i = 1..<ni d - 1.
             (- r ! i / EPS - (p ! (i - 1) - 2 * p ! i + p ! (i + 1)) / (dx d)\<^sup>2)\<^sup>2)
       / real (ni d)"

definition converged_at :: "Domain \<Rightarrow> real list \<Rightarrow> real list \<Rightarrow> nat \<Rightarrow> bool" where
  "converged_at d r p k =
     (k mod 25 = 0 \<and> residual_norm d r (sweeps d r p (Suc k)) < 1 / 10 ^ 4)"

text \<open>
  The direct solver, stage by stage. \<open>dirichlet_row\<close> is a coefficient array of the
  tridiagonal system (one value on the interior rows, another on the two boundary rows),
  \<open>poisson_rhs\<close> its right-hand side; \<open>cprime\<close> and \<open>xprime\<close> are the recurrences of
  the forward elimination, \<open>backsub\<close> the recurrence of the back substitution over an
  array of \<open>n\<close> entries.
\<close>

fun cprime :: "real list \<Rightarrow> real list \<Rightarrow> real list \<Rightarrow> nat \<Rightarrow> real" where
  "cprime a b c 0 = c ! 0"
| "cprime a b c (Suc i) = c ! Suc i / (b ! Suc i - cprime a b c i * a ! Suc i)"

fun xprime :: "real list \<Rightarrow> real list \<Rightarrow> real list \<Rightarrow> real list \<Rightarrow> nat \<Rightarrow> real" where
  "xprime a b c x 0 = x ! 0"
| "xprime a b c x (Suc i) =
     (x ! Suc i - xprime a b c x i * a ! Suc i) / (b ! Suc i - cprime a b c i * a ! Suc i)"

definition dirichlet_row :: "nat \<Rightarrow> real \<Rightarrow> real \<Rightarrow> real list" where
  "dirichlet_row n inner edge = map (\<lambda>i. if i = 0 \<or> i = n - 1 then edge else inner) [0..<n]"

definition poisson_rhs :: "Domain \<Rightarrow> real list \<Rightarrow> real list" where
  "poisson_rhs d r =
     map (\<lambda>i. if i = 0 \<or> i = ni d - 1 then 0 else - r ! i * (dx d * dx d) / EPS) [0..<ni d]"

function backsub :: "real list \<Rightarrow> real list \<Rightarrow> nat \<Rightarrow> nat \<Rightarrow> real" where
  "backsub c x n j = (if j + 1 < n then x ! j - c ! j * backsub c x n (j + 1) else x ! j)"
  by pat_completeness auto
termination
  by (relation "measure (\<lambda>(c, x, n, j). n - j)") auto

section \<open>Verification\<close>

subsection \<open>Logical coordinates\<close>

lemma trunc_int_nonneg: "0 \<le> r \<Longrightarrow> trunc_int r = \<lfloor>r\<rfloor>"
  by (simp add: trunc_int_def)

lemma XtoL_range:
  assumes "domain_ok d" and "x0 d \<le> p" and "p < xmax d"
  shows "0 \<le> XtoL d p" and "XtoL d p < real (ni d) - 1"
proof -
  from assms(1) have h: "0 < dx d" and m: "xmax d = x0 d + (real (ni d) - 1) * dx d"
    by (simp_all add: domain_ok_def)
  show "0 \<le> XtoL d p"
    using h assms(2) by (simp add: XtoL_def)
  have "p - x0 d < (real (ni d) - 1) * dx d"
    using assms(3) m by simp
  then show "XtoL d p < real (ni d) - 1"
    using h by (simp add: XtoL_def pos_divide_less_eq)
qed

lemma XtoL_index:
  assumes "domain_ok d" and "x0 d \<le> p" and "p < xmax d"
  shows "0 \<le> trunc_int (XtoL d p)" and "nat (trunc_int (XtoL d p)) + 1 < ni d"
proof -
  have a: "0 \<le> XtoL d p" and b: "XtoL d p < real (ni d) - 1"
    using XtoL_range [OF assms] by simp_all
  have t: "trunc_int (XtoL d p) = \<lfloor>XtoL d p\<rfloor>"
    using a by (rule trunc_int_nonneg)
  show "0 \<le> trunc_int (XtoL d p)"
    using a t by simp
  have "\<lfloor>XtoL d p\<rfloor> < int (ni d) - 1"
    using b by (simp add: floor_less_iff)
  moreover have "0 \<le> \<lfloor>XtoL d p\<rfloor>"
    using a by simp
  ultimately show "nat (trunc_int (XtoL d p)) + 1 < ni d"
    using t by linarith
qed

lemma trunc_int_nat_add: "0 \<le> di \<Longrightarrow> di < 1 \<Longrightarrow> trunc_int (real i + di) = int i"
  by (simp add: trunc_int_def) linarith

lemma sum_list_upd:
  fixes xs :: "real list"
  shows "k < length xs \<Longrightarrow> sum_list (xs[k := x]) = sum_list xs - xs ! k + x"
  by (induction xs arbitrary: k) (auto split: nat.splits)

text \<open>
  Over exact arithmetic, for a position \<open>p\<close> with \<open>x0 \<le> p < xmax\<close> in a well-formed
  domain, the logical coordinate lies in \<open>[0, ni - 1)\<close>, the cast to \<^verbatim>\<open>int\<close> is the
  floor, and both \<open>scatter\<close> and \<open>gather\<close> on an array of \<open>ni\<close> nodes return a result.
\<close>

lemma XtoL_exact_in_bounds:
  assumes "domain_ok d" and "x0 d \<le> p" and "p < xmax d" and "length field = ni d"
  shows "0 \<le> XtoL d p \<and> XtoL d p < real (ni d) - 1
         \<and> trunc_int (XtoL d p) = \<lfloor>XtoL d p\<rfloor>
         \<and> 0 \<le> \<lfloor>XtoL d p\<rfloor> \<and> \<lfloor>XtoL d p\<rfloor> + 1 \<le> int (ni d) - 1
         \<and> (\<exists>f. scatter (XtoL d p) v field = Some f \<and> length f = ni d)
         \<and> (\<exists>e. gather (XtoL d p) field = Some e)"
proof -
  have a: "0 \<le> XtoL d p" and b: "XtoL d p < real (ni d) - 1"
    using XtoL_range [OF assms(1-3)] by simp_all
  have i: "0 \<le> trunc_int (XtoL d p)" and j: "nat (trunc_int (XtoL d p)) + 1 < ni d"
    using XtoL_index [OF assms(1-3)] by simp_all
  have t: "trunc_int (XtoL d p) = \<lfloor>XtoL d p\<rfloor>"
    using a by (rule trunc_int_nonneg)
  have "\<lfloor>XtoL d p\<rfloor> + 1 \<le> int (ni d) - 1"
    using i j t by linarith
  moreover have "\<exists>f. scatter (XtoL d p) v field = Some f \<and> length f = ni d"
    using i j assms(4) by (simp add: scatter_def Let_def)
  moreover have "\<exists>e. gather (XtoL d p) field = Some e"
    using i j assms(4) by (simp add: gather_def Let_def)
  ultimately show ?thesis
    using a b t by simp
qed

subsection \<open>Logical coordinates in binary64\<close>










































subsection \<open>Deposition of one particle\<close>

text \<open>
  Claim C6. Scattering a weight \<open>w\<close> at the logical coordinate \<open>i + di\<close>, with
  \<open>0 \<le> di < 1\<close> and \<open>i + 1 < n\<close>, into a cleared array of \<open>n\<close> nodes puts
  \<open>w * (1 - di)\<close> on node \<open>i\<close>, \<open>w * di\<close> on node \<open>i + 1\<close> and nothing elsewhere; the
  two deposits, and the whole array, sum to \<open>w\<close>, whatever \<open>di\<close> is.
\<close>

theorem scatter_conserves:
  assumes "0 \<le> di" and "di < 1" and "i + 1 < n"
  shows "scatter (real i + di) w (replicate n 0)
           = Some ((replicate n 0)[i := w * (1 - di), i + 1 := w * di])
         \<and> (replicate n 0)[i := w * (1 - di), i + 1 := w * di] ! i = w * (1 - di)
         \<and> (replicate n 0)[i := w * (1 - di), i + 1 := w * di] ! (i + 1) = w * di
         \<and> (\<forall>j<n. j \<noteq> i \<and> j \<noteq> i + 1 \<longrightarrow>
               (replicate n 0)[i := w * (1 - di), i + 1 := w * di] ! j = 0)
         \<and> (replicate n 0)[i := w * (1 - di), i + 1 := w * di] ! i
             + (replicate n 0)[i := w * (1 - di), i + 1 := w * di] ! (i + 1) = w
         \<and> sum_list ((replicate n 0)[i := w * (1 - di), i + 1 := w * di]) = w"
proof -
  let ?f = "(replicate n 0)[i := w * (1 - di), i + 1 := w * di]"
  have t: "trunc_int (real i + di) = int i"
    using assms(1,2) by (rule trunc_int_nat_add)
  have "scatter (real i + di) w (replicate n 0) = Some ?f"
    using assms(3) by (simp add: scatter_def t)
  moreover have "sum_list ?f = w"
    using assms(3) by (simp add: sum_list_upd sum_list_replicate algebra_simps)
  ultimately show ?thesis
    using assms(3) by (simp add: algebra_simps)
qed

theorem scatter_conserves_witness:
  "scatter (5 / 4) 8 [0, 0, 0, 0] = Some [0, 6, 2, 0] \<and> sum_list [0, 6, 2, 0 :: real] = 8"
  using scatter_conserves [of "1 / 4" 1 4 8] by (simp add: numeral_eq_Suc)

subsection \<open>Loops that update an array\<close>

lemma length_fold_upd [simp]: "length (fold (\<lambda>i f. f[i := h i f]) js f) = length f"
  by (induction js arbitrary: f) simp_all

lemma fold_upd_nth:
  "j < length f \<Longrightarrow>
   fold (\<lambda>i f. f[i := g i]) [lo..<hi] f ! j = (if lo \<le> j \<and> j < hi then g j else f ! j)"
proof (induction hi)
  case 0
  then show ?case by simp
next
  case (Suc hi)
  show ?case
  proof (cases "lo \<le> hi")
    case True
    with Suc show ?thesis
      by (cases "j = hi") (auto simp: nth_list_update)
  next
    case False
    then show ?thesis by auto
  qed
qed

lemma length_ComputeEF [simp]: "length (ComputeEF d p e) = length e"
  by (simp add: ComputeEF_def Let_def)

subsection \<open>Electric field\<close>

lemma ComputeEF_nth:
  assumes "2 \<le> ni d" and "length e = ni d" and "i < ni d"
  shows "ComputeEF d p e ! i = ef_spec d p i"
  using assms by (auto simp: ComputeEF_def Let_def ef_spec_def nth_list_update fold_upd_nth)

text \<open>
  Claim C8. On a domain with at least two nodes, \<open>ComputeEF\<close> writes the central
  difference at every interior node and the one-sided differences at the two boundary
  nodes; the result is a function of the potential alone (whatever the field array held
  before), and a linear ramp \<open>phi[i] = c * i\<close> gives the constant field \<open>- c / dx\<close> at
  every node.
\<close>

theorem ComputeEF_correct:
  assumes "2 \<le> ni d" and "length p = ni d" and "length e = ni d"
  shows "ComputeEF d p e = map (ef_spec d p) [0..<ni d]
         \<and> (\<forall>i. 0 < i \<and> i < ni d - 1 \<longrightarrow>
               ComputeEF d p e ! i = - (p ! (i + 1) - p ! (i - 1)) / (2 * dx d))
         \<and> ComputeEF d p e ! 0 = - (p ! 1 - p ! 0) / dx d
         \<and> ComputeEF d p e ! (ni d - 1) = - (p ! (ni d - 1) - p ! (ni d - 2)) / dx d
         \<and> (\<forall>e'. length e' = ni d \<longrightarrow> ComputeEF d p e' = ComputeEF d p e)
         \<and> ((\<forall>i<ni d. p ! i = c * real i) \<longrightarrow> ComputeEF d p e = replicate (ni d) (- c / dx d))"
proof -
  have closed: "ComputeEF d p f = map (ef_spec d p) [0..<ni d]" if "length f = ni d" for f
    using that assms(1) by (intro nth_equalityI) (simp_all add: ComputeEF_nth)
  have inner: "ComputeEF d p e ! i = - (p ! (i + 1) - p ! (i - 1)) / (2 * dx d)"
    if "0 < i \<and> i < ni d - 1" for i
  proof -
    from that have "i < ni d" by linarith
    then have "ComputeEF d p e ! i = ef_spec d p i"
      using assms by (simp add: ComputeEF_nth)
    then show ?thesis
      using that by (simp add: ef_spec_def)
  qed
  have first: "ComputeEF d p e ! 0 = - (p ! 1 - p ! 0) / dx d"
    using assms by (simp add: ComputeEF_nth ef_spec_def)
  have last: "ComputeEF d p e ! (ni d - 1) = - (p ! (ni d - 1) - p ! (ni d - 2)) / dx d"
    using assms by (simp add: ComputeEF_nth ef_spec_def)
  have ramp: "ComputeEF d p e = replicate (ni d) (- c / dx d)"
    if r: "\<forall>i<ni d. p ! i = c * real i"
  proof (intro nth_equalityI)
    show "length (ComputeEF d p e) = length (replicate (ni d) (- c / dx d))"
      using assms by simp
  next
    fix i assume "i < length (ComputeEF d p e)"
    then have i: "i < ni d" using assms by simp
    have "ef_spec d p i = - c / dx d"
      using i r assms(1) by (auto simp: ef_spec_def algebra_simps of_nat_diff diff_divide_distrib)
    then show "ComputeEF d p e ! i = replicate (ni d) (- c / dx d) ! i"
      using i assms by (simp add: ComputeEF_nth)
  qed
  show ?thesis
    using closed [OF assms(3)] closed inner first last ramp by simp
qed

theorem ComputeEF_correct_witness:
  "ComputeEF (make_domain 3 2 0) [0, 3, 6] [9, 9, 9] = [- 3 / 2, - 3 / 2, - 3 / 2]
   \<and> ComputeEF (make_domain 3 2 0) [0, 3, 6] [9, 9, 9] ! 1 = - (6 - 0) / (2 * 2)"
  using ComputeEF_correct [of "make_domain 3 2 0" "[0, 3, 6]" "[9, 9, 9]" 3]
  by (simp add: make_domain_def ef_spec_def numeral_3_eq_3 All_less_Suc)

subsection \<open>Particle integrator\<close>

lemma push_particle_Some:
  "push_particle d qm field p = Some p' \<longleftrightarrow>
     gather (XtoL d (pos p)) field \<noteq> None \<and> p' = pushed d qm field p"
  by (auto simp: push_particle_def pushed_def Let_def split: option.splits)

lemma push_particle_None:
  "push_particle d qm field p = None \<longleftrightarrow> gather (XtoL d (pos p)) field = None"
  by (simp add: push_particle_def Let_def split: option.splits)

declare PushSpecies_loop.simps [simp del]

lemma PushSpecies_loop_eq:
  "it \<le> length ps \<Longrightarrow>
   PushSpecies_loop d qm field ps it =
     (if \<forall>p\<in>set (drop it ps). gather (XtoL d (pos p)) field \<noteq> None
      then Some (take it ps @ filter (\<lambda>p. \<not> left_domain d p) (map (pushed d qm field) (drop it ps)))
      else None)"
proof (induction d qm field ps it rule: PushSpecies_loop.induct)
  case (1 d qm field ps it)
  show ?case
  proof (cases "it < length ps")
    case False
    with "1.prems" show ?thesis
      by (subst PushSpecies_loop.simps) simp
  next
    case True
    then have dr: "drop it ps = ps ! it # drop (Suc it) ps"
      by (simp add: Cons_nth_drop_Suc)
    show ?thesis
    proof (cases "push_particle d qm field (ps ! it)")
      case None
      have "PushSpecies_loop d qm field ps it = None"
        using True None by (subst PushSpecies_loop.simps) simp
      moreover have "gather (XtoL d (pos (ps ! it))) field = None"
        using None by (simp add: push_particle_None)
      ultimately show ?thesis
        using dr by simp
    next
      case (Some part)
      then have g: "gather (XtoL d (pos (ps ! it))) field \<noteq> None"
        and part: "part = pushed d qm field (ps ! it)"
        by (simp_all add: push_particle_Some)
      show ?thesis
      proof (cases "left_domain d part")
        case left: True
        have "PushSpecies_loop d qm field ps it
              = PushSpecies_loop d qm field (erase it (ps[it := part])) it"
          using True Some left by (subst PushSpecies_loop.simps) simp
        also have "\<dots> = (if \<forall>p\<in>set (drop it (erase it (ps[it := part]))).
                               gather (XtoL d (pos p)) field \<noteq> None
             then Some (take it (erase it (ps[it := part])) @
                        filter (\<lambda>p. \<not> left_domain d p)
                          (map (pushed d qm field) (drop it (erase it (ps[it := part])))))
             else None)"
          using "1.IH"(1) [OF True Some left] True by (simp add: erase_def)
        finally show ?thesis
          using True dr g left part by (simp add: erase_def)
      next
        case stay: False
        have "PushSpecies_loop d qm field ps it
              = PushSpecies_loop d qm field (ps[it := part]) (Suc it)"
          using True Some stay by (subst PushSpecies_loop.simps) simp
        also have "\<dots> = (if \<forall>p\<in>set (drop (Suc it) (ps[it := part])).
                               gather (XtoL d (pos p)) field \<noteq> None
             then Some (take (Suc it) (ps[it := part]) @
                        filter (\<lambda>p. \<not> left_domain d p)
                          (map (pushed d qm field) (drop (Suc it) (ps[it := part]))))
             else None)"
          using "1.IH"(2) [OF True Some stay] True by simp
        finally show ?thesis
          using True dr g stay part by (simp add: take_Suc_conv_app_nth)
      qed
    qed
  qed
qed


lemma PushSpecies_eq:
  "PushSpecies d sp field =
     (if \<forall>p\<in>set (part_list sp). gather (XtoL d (pos p)) field \<noteq> None
      then Some (sp\<lparr>part_list := filter (\<lambda>p. \<not> left_domain d p)
                                (map (pushed d (charge sp / mass sp) field) (part_list sp))\<rparr>)
      else None)"
  using PushSpecies_loop_eq [of 0 "part_list sp" d "charge sp / mass sp" field]
  by (simp add: PushSpecies_def Let_def)

lemma gather_defined:
  assumes "domain_ok d" and "length field = ni d" and "x0 d \<le> p" and "p < xmax d"
  shows "gather (XtoL d p) field \<noteq> None"
  using XtoL_index [OF assms(1,3,4)] assms(2) by (simp add: gather_def Let_def)

lemma trunc_int_half: "trunc_int (1 / 2) = 0"
  by (simp add: trunc_int_def)

lemma trunc_int_three_halves: "trunc_int (3 / 2) = 1"
  by (simp add: trunc_int_def)

text \<open>
  Claim C2. One call of \<open>PushSpecies\<close> is defined whenever every particle lies in
  \<open>[x0, xmax)\<close>. Whenever it is defined, the update of the loop body is defined on every
  particle and the new particle list is the list of the updated particles, in order,
  each once, without those whose new position is below \<open>x0\<close> or at least \<open>xmax\<close>: a
  particle is removed exactly when its new position left the domain, none is added, and
  the count is the old count minus the number of particles that left; so the count never
  grows.
\<close>

theorem PushSpecies_absorbs:
  "(domain_ok d \<and> length field = ni d
      \<and> (\<forall>p\<in>set (part_list sp). x0 d \<le> pos p \<and> pos p < xmax d)
      \<longrightarrow> PushSpecies d sp field \<noteq> None)
   \<and> (\<forall>sp'. PushSpecies d sp field = Some sp' \<longrightarrow>
         (\<forall>p\<in>set (part_list sp). push_particle d (charge sp / mass sp) field p \<noteq> None)
         \<and> part_list sp' =
              filter (\<lambda>p. \<not> (pos p < x0 d \<or> xmax d \<le> pos p))
                (map (\<lambda>p. the (push_particle d (charge sp / mass sp) field p)) (part_list sp))
         \<and> length (part_list sp') = length (part_list sp)
              - length (filter (\<lambda>p. pos p < x0 d \<or> xmax d \<le> pos p)
                  (map (\<lambda>p. the (push_particle d (charge sp / mass sp) field p)) (part_list sp)))
         \<and> length (part_list sp') \<le> length (part_list sp))"
proof -
  let ?push = "\<lambda>p. the (push_particle d (charge sp / mass sp) field p)"
  let ?new = "map ?push (part_list sp)"
  have total: "PushSpecies d sp field \<noteq> None"
    if "domain_ok d \<and> length field = ni d
        \<and> (\<forall>p\<in>set (part_list sp). x0 d \<le> pos p \<and> pos p < xmax d)"
  proof -
    have "\<forall>p\<in>set (part_list sp). gather (XtoL d (pos p)) field \<noteq> None"
      using that gather_defined by blast
    then show ?thesis
      by (simp add: PushSpecies_eq)
  qed
  have defined: "\<forall>p\<in>set (part_list sp). push_particle d (charge sp / mass sp) field p \<noteq> None"
    and result: "part_list sp' = filter (\<lambda>p. \<not> (pos p < x0 d \<or> xmax d \<le> pos p)) ?new"
    if run: "PushSpecies d sp field = Some sp'" for sp'
  proof -
    have g: "\<forall>p\<in>set (part_list sp). gather (XtoL d (pos p)) field \<noteq> None"
      and l: "part_list sp' = filter (\<lambda>p. \<not> left_domain d p)
                (map (pushed d (charge sp / mass sp) field) (part_list sp))"
      using run by (auto simp: PushSpecies_eq split: if_splits)
    show "\<forall>p\<in>set (part_list sp). push_particle d (charge sp / mass sp) field p \<noteq> None"
      using g by (simp add: push_particle_None)
    have "?push p = pushed d (charge sp / mass sp) field p" if "p \<in> set (part_list sp)" for p
    proof -
      have "gather (XtoL d (pos p)) field \<noteq> None"
        using g that by blast
      then have "push_particle d (charge sp / mass sp) field p
                   = Some (pushed d (charge sp / mass sp) field p)"
        by (simp add: push_particle_Some)
      then show ?thesis
        by simp
    qed
    then have eq: "?new = map (pushed d (charge sp / mass sp) field) (part_list sp)"
      by simp
    show "part_list sp' = filter (\<lambda>p. \<not> (pos p < x0 d \<or> xmax d \<le> pos p)) ?new"
      unfolding eq l by (simp add: left_domain_def)
  qed
  have count: "length (filter (\<lambda>p. \<not> (pos p < x0 d \<or> xmax d \<le> pos p)) ?new)
                 = length (part_list sp)
                    - length (filter (\<lambda>p. pos p < x0 d \<or> xmax d \<le> pos p) ?new)"
    using sum_length_filter_compl [of "\<lambda>p. pos p < x0 d \<or> xmax d \<le> pos p" ?new]
    by simp
  have le: "length (filter (\<lambda>p. \<not> (pos p < x0 d \<or> xmax d \<le> pos p)) ?new)
               \<le> length (part_list sp)"
    using length_filter_le [of "\<lambda>p. \<not> (pos p < x0 d \<or> xmax d \<le> pos p)" ?new] by simp
  show ?thesis
    using total defined result count le by presburger
qed

theorem PushSpecies_absorbs_witness:
  "PushSpecies (make_domain 3 1 0)
     ((new_Species ''e'' 1 1 1 2 1)\<lparr>part_list :=
        [\<lparr>pos = 1 / 2, vel = 0, ident = 0\<rparr>, \<lparr>pos = 3 / 2, vel = 10 ^ 11, ident = 1\<rparr>]\<rparr>)
     [0, 0, 0]
   = Some ((new_Species ''e'' 1 1 1 2 1)\<lparr>part_list := [\<lparr>pos = 1 / 2, vel = 0, ident = 0\<rparr>]\<rparr>)
   \<and> length [\<lparr>pos = 1 / 2, vel = 0, ident = 0\<rparr>] = (2::nat) - 1"
proof -
  let ?d = "make_domain 3 1 0"
  let ?sp = "(new_Species ''e'' 1 1 1 2 1)\<lparr>part_list :=
        [\<lparr>pos = 1 / 2, vel = 0, ident = 0\<rparr>, \<lparr>pos = 3 / 2, vel = 10 ^ 11, ident = 1\<rparr>]\<rparr>"
  have run: "PushSpecies ?d ?sp [0, 0, 0]
    = Some ((new_Species ''e'' 1 1 1 2 1)\<lparr>part_list := [\<lparr>pos = 1 / 2, vel = 0, ident = 0\<rparr>]\<rparr>)"
    by (simp add: PushSpecies_def PushSpecies_loop.simps push_particle_def gather_def XtoL_def
        make_domain_def new_Species_def left_domain_def erase_def DT_def trunc_int_half
        trunc_int_three_halves)
  have "length (part_list ((new_Species ''e'' 1 1 1 2 1)\<lparr>part_list :=
                 [\<lparr>pos = 1 / 2, vel = 0, ident = 0\<rparr>]\<rparr>)) \<le> length (part_list ?sp)"
    using PushSpecies_absorbs [of ?d "[0, 0, 0]" ?sp] run by blast
  then show ?thesis
    using run by simp
qed

text \<open>
  The same over a whole pass of the main loop: no step of \<^verbatim>\<open>main\<close> increases the
  number of ions or of electrons.
\<close>

lemma PushSpecies_count:
  assumes "PushSpecies d sp field = Some sp'"
  shows "length (part_list sp') \<le> length (part_list sp)"
proof -
  have "length (filter (\<lambda>p. \<not> left_domain d p)
                  (map (pushed d (charge sp / mass sp) field) (part_list sp)))
          \<le> length (part_list sp)"
    using length_filter_le [of "\<lambda>p. \<not> left_domain d p"
            "map (pushed d (charge sp / mass sp) field) (part_list sp)"] by simp
  then show ?thesis
    using assms by (auto simp: PushSpecies_eq split: if_splits)
qed

lemma diagnostics_species [simp]:
  "ions (diagnostics ts s) = ions s" "electrons (diagnostics ts s) = electrons s"
  by (simp_all add: diagnostics_def)

lemma main_step_count:
  assumes "main_step ts s = Some s'"
  shows "length (part_list (ions s')) \<le> length (part_list (ions s))
       \<and> length (part_list (electrons s')) \<le> length (part_list (electrons s))"
  using assms
  by (auto simp: main_step_def Let_def bind_eq_Some_conv dest!: PushSpecies_count)




subsection \<open>Deposition of a population\<close>

lemma fold_div_nth:
  "j < length f \<Longrightarrow>
   fold (\<lambda>i f. f[i := f ! i / c]) [lo..<hi] f ! j = (if lo \<le> j \<and> j < hi then f ! j / c else f ! j)"
proof (induction hi)
  case 0
  then show ?case by simp
next
  case (Suc hi)
  show ?case
  proof (cases "lo \<le> hi")
    case True
    with Suc show ?thesis
      by (cases "j = hi") (auto simp: nth_list_update)
  next
    case False
    then show ?thesis by auto
  qed
qed

lemma memset0_replicate: "length f = n \<Longrightarrow> memset0 n f = replicate n 0"
  by (intro nth_equalityI) (simp_all add: memset0_def fold_upd_nth)

lemma length_to_density [simp]: "length (to_density d f) = length f"
  by (simp add: to_density_def Let_def)

lemma to_density_nth:
  assumes "2 \<le> ni d" and "length f = ni d" and "j < ni d"
  shows "to_density d f ! j = f ! j / dx d * (if j = 0 \<or> j = ni d - 1 then 2 else 1)"
  using assms by (auto simp: to_density_def Let_def nth_list_update fold_div_nth)

lemma scatter_lc_nth:
  assumes "scatter lc v f = Some f'" and "0 \<le> lc" and "j < length f"
  shows "f' ! j = f ! j + v * ((if int j = \<lfloor>lc\<rfloor> then 1 - (lc - of_int \<lfloor>lc\<rfloor>) else 0)
                              + (if int j = \<lfloor>lc\<rfloor> + 1 then lc - of_int \<lfloor>lc\<rfloor> else 0))"
proof -
  have t: "trunc_int lc = \<lfloor>lc\<rfloor>"
    using assms(2) by (rule trunc_int_nonneg)
  have i0: "0 \<le> \<lfloor>lc\<rfloor>"
    using assms(2) by simp
  have b: "nat \<lfloor>lc\<rfloor> + 1 < length f"
    and f': "f' = f[nat \<lfloor>lc\<rfloor> := f ! nat \<lfloor>lc\<rfloor> + v * (1 - (lc - of_int \<lfloor>lc\<rfloor>)),
                   nat \<lfloor>lc\<rfloor> + 1 := f ! (nat \<lfloor>lc\<rfloor> + 1) + v * (lc - of_int \<lfloor>lc\<rfloor>)]"
    using assms(1) by (auto simp: scatter_def Let_def t split: if_splits)
  consider "j = nat \<lfloor>lc\<rfloor>" | "j = nat \<lfloor>lc\<rfloor> + 1" | "j \<noteq> nat \<lfloor>lc\<rfloor>" "j \<noteq> nat \<lfloor>lc\<rfloor> + 1"
    by blast
  then show ?thesis
  proof cases
    case 1
    then have "int j = \<lfloor>lc\<rfloor>" using i0 by simp
    then show ?thesis
      using 1 b f' by simp
  next
    case 2
    then have "int j = \<lfloor>lc\<rfloor> + 1" using i0 by simp
    then show ?thesis
      using 2 b f' by simp
  next
    case 3
    then have "int j \<noteq> \<lfloor>lc\<rfloor>" "int j \<noteq> \<lfloor>lc\<rfloor> + 1"
      using i0 by linarith+
    then show ?thesis
      using 3 f' by simp
  qed
qed

lemma scatter_nth:
  assumes "scatter (XtoL d (pos p)) v f = Some f'" and "0 \<le> XtoL d (pos p)"
  shows "length f' = length f"
    and "j < length f \<Longrightarrow> f' ! j = f ! j + v * weight d j p"
proof -
  show "length f' = length f"
    using assms(1) by (auto simp: scatter_def Let_def split: if_splits)
  show "f' ! j = f ! j + v * weight d j p" if "j < length f"
    using scatter_lc_nth [OF assms that] by (simp add: weight_def XtoL_def Let_def)
qed

lemma scatter_parts_sum:
  assumes "domain_ok d" and "length f = ni d"
    and "\<forall>p\<in>set ps. x0 d \<le> pos p \<and> pos p < xmax d"
  shows "\<exists>f'. scatter_parts d val ps f = Some f' \<and> length f' = ni d
           \<and> (\<forall>j<ni d. f' ! j = f ! j + (\<Sum>p\<leftarrow>ps. val p * weight d j p))"
  using assms(2,3)
proof (induction ps arbitrary: f)
  case Nil
  then show ?case by simp
next
  case (Cons p ps)
  have inside: "x0 d \<le> pos p" "pos p < xmax d"
    using Cons.prems(2) by simp_all
  have nn: "0 \<le> XtoL d (pos p)"
    using XtoL_range(1) [OF assms(1) inside] .
  obtain f1 where f1: "scatter (XtoL d (pos p)) (val p) f = Some f1"
    using XtoL_index [OF assms(1) inside] Cons.prems(1) by (auto simp: scatter_def Let_def)
  have len: "length f1 = ni d"
    using scatter_nth(1) [OF f1 nn] Cons.prems(1) by simp
  have step: "f1 ! j = f ! j + val p * weight d j p" if "j < ni d" for j
    using scatter_nth(2) [OF f1 nn, of j] that Cons.prems(1) by simp
  obtain f' where f': "scatter_parts d val ps f1 = Some f'" "length f' = ni d"
    "\<forall>j<ni d. f' ! j = f1 ! j + (\<Sum>p\<leftarrow>ps. val p * weight d j p)"
    using Cons.IH [OF len] Cons.prems(2) by auto
  show ?case
    using f1 f' step by (simp add: algebra_simps)
qed

lemma scatter_density:
  assumes "domain_ok d" and "length field = ni d"
    and "\<forall>p\<in>set ps. x0 d \<le> pos p \<and> pos p < xmax d"
  shows "(case scatter_parts d val ps (memset0 (ni d) field) of
            None \<Rightarrow> None | Some f \<Rightarrow> Some (to_density d f)) = Some (density_spec d val ps)"
proof -
  have n2: "2 \<le> ni d"
    using assms(1) by (simp add: domain_ok_def)
  have z: "memset0 (ni d) field = replicate (ni d) 0"
    using assms(2) by (rule memset0_replicate)
  obtain f' where f': "scatter_parts d val ps (replicate (ni d) 0) = Some f'" "length f' = ni d"
    "\<forall>j<ni d. f' ! j = replicate (ni d) 0 ! j + (\<Sum>p\<leftarrow>ps. val p * weight d j p)"
    using scatter_parts_sum [OF assms(1) _ assms(3), of "replicate (ni d) 0" val] by auto
  have "to_density d f' = density_spec d val ps"
  proof (intro nth_equalityI)
    show "length (to_density d f') = length (density_spec d val ps)"
      using f'(2) by (simp add: density_spec_def)
  next
    fix j assume "j < length (to_density d f')"
    then have j: "j < ni d" using f'(2) by simp
    show "to_density d f' ! j = density_spec d val ps ! j"
      using j f'(3) by (simp add: to_density_nth [OF n2 f'(2) j] density_spec_def)
  qed
  then show ?thesis
    using f'(1) z by simp
qed

lemma density_spec_mset:
  assumes "mset ps' = mset ps"
  shows "density_spec d val ps' = density_spec d val ps"
proof -
  have "(\<Sum>p\<leftarrow>ps'. val p * weight d j p) = (\<Sum>p\<leftarrow>ps. val p * weight d j p)" for j
  proof -
    have "mset (map (\<lambda>p. val p * weight d j p) ps') = mset (map (\<lambda>p. val p * weight d j p) ps)"
      using assms by (metis mset_map)
    then show ?thesis
      by (metis sum_mset_sum_list)
  qed
  then show ?thesis
    by (simp add: density_spec_def)
qed

text \<open>
  Claim C5. For a population whose particles all lie in \<open>[x0, xmax)\<close>, on a well-formed
  domain, \<open>ScatterSpecies\<close> returns the array the specification prescribes: the deposits
  \<open>spwt * (1 - di)\<close> on node \<open>i\<close> and \<open>spwt * di\<close> on node \<open>i + 1\<close> of every particle,
  accumulated from zero, divided by \<open>dx\<close>, with nodes \<open>0\<close> and \<open>ni - 1\<close> doubled. The
  result does not depend on what the array held before, nor on the order of the
  particles.
\<close>

theorem ScatterSpecies_correct:
  assumes "domain_ok d" and "length field = ni d"
    and "\<forall>p\<in>set (part_list sp). x0 d \<le> pos p \<and> pos p < xmax d"
  shows "ScatterSpecies d sp field = Some (density_spec d (\<lambda>p. spwt sp) (part_list sp))
         \<and> (\<forall>sp' field'. length field' = ni d \<and> spwt sp' = spwt sp
                \<and> mset (part_list sp') = mset (part_list sp)
              \<longrightarrow> ScatterSpecies d sp' field' = ScatterSpecies d sp field)"
proof -
  have one: "ScatterSpecies d s f = Some (density_spec d (\<lambda>p. spwt s) (part_list s))"
    if "length f = ni d" and "\<forall>p\<in>set (part_list s). x0 d \<le> pos p \<and> pos p < xmax d" for s f
    using scatter_density [OF assms(1) that] by (simp add: ScatterSpecies_def)
  have "ScatterSpecies d sp' field' = ScatterSpecies d sp field"
    if h: "length field' = ni d \<and> spwt sp' = spwt sp \<and> mset (part_list sp') = mset (part_list sp)"
    for sp' field'
  proof -
    have "set (part_list sp') = set (part_list sp)"
      using h by (metis mset_eq_setD)
    then have "ScatterSpecies d sp' field' = Some (density_spec d (\<lambda>p. spwt sp') (part_list sp'))"
      using one [of field' sp'] h assms(3) by simp
    also have "\<dots> = Some (density_spec d (\<lambda>p. spwt sp) (part_list sp))"
      using h density_spec_mset [of "part_list sp'" "part_list sp"] by simp
    finally show ?thesis
      using one [OF assms(2,3)] by simp
  qed
  then show ?thesis
    using one [OF assms(2,3)] by blast
qed

theorem ScatterSpecies_correct_witness:
  "ScatterSpecies (make_domain 3 1 0)
     ((new_Species ''e'' 1 1 4 2 1)\<lparr>part_list :=
        [\<lparr>pos = 1 / 2, vel = 0, ident = 0\<rparr>, \<lparr>pos = 3 / 2, vel = 0, ident = 1\<rparr>]\<rparr>)
     [7, 7, 7] = Some [4, 4, 4]"
  using ScatterSpecies_correct [of "make_domain 3 1 0" "[7, 7, 7]"
     "(new_Species ''e'' 1 1 4 2 1)\<lparr>part_list :=
        [\<lparr>pos = 1 / 2, vel = 0, ident = 0\<rparr>, \<lparr>pos = 3 / 2, vel = 0, ident = 1\<rparr>]\<rparr>"]
  by (simp add: domain_ok_def make_domain_def new_Species_def density_spec_def weight_def
      numeral_3_eq_3)

subsection \<open>Initialisation\<close>

lemma fold_const: "fold (\<lambda>p. F) js s = (F ^^ length js) s"
  by (induction js arbitrary: s) (simp_all add: funpow_swap1)

lemma Init_funpow: "Init rnd d sp g = (Init_body rnd d ^^ NUM_IONS) (sp, g)"
  by (simp add: Init_def fold_const)

lemma Init_body_fst:
  "fst (Init_body rnd d (sp, g)) =
     add sp \<lparr>pos = x0 d + draws rnd g 4 ! 0 * (real (ni d) - 1) * dx d,
             vel = sqrt (2 * K * (Temp sp * EV_TO_K) / mass sp) * sqrt 2
                     * (draws rnd g 4 ! 1 + draws rnd g 4 ! 2 + draws rnd g 4 ! 3 - 15 / 10),
             ident = 0\<rparr>"
  by (simp add: Init_body_def SampleVel_def Let_def split_beta numeral_eq_Suc)

lemma Init_body_snd: "snd (Init_body rnd d (sp, g)) = advance rnd g 4"
  by (simp add: Init_body_def SampleVel_def Let_def split_beta numeral_eq_Suc)

lemma draws_add: "draws rnd g (a + b) = draws rnd g a @ draws rnd (advance rnd g a) b"
  by (induction a arbitrary: g) simp_all

lemma length_draws [simp]: "length (draws rnd g n) = n"
  by (induction n arbitrary: g) simp_all

lemma add_fields:
  "mass (add sp p) = mass sp" "Temp (add sp p) = Temp sp"
  "length (part_list (add sp p)) = Suc (length (part_list sp))"
  by (simp_all add: add_def)

lemma Init_steps_count:
  "length (part_list (fst ((Init_body rnd d ^^ n) (sp, g)))) = length (part_list sp) + n"
proof (induction n arbitrary: sp g)
  case 0
  then show ?case by simp
next
  case (Suc n)
  have "(Init_body rnd d ^^ Suc n) (sp, g)
          = (Init_body rnd d ^^ n) (fst (Init_body rnd d (sp, g)), snd (Init_body rnd d (sp, g)))"
    by (simp add: funpow_swap1)
  then show ?case
    using Suc.IH by (simp add: Init_body_fst add_fields)
qed

lemma Init_count:
  "length (part_list (fst (Init rnd d sp g))) = length (part_list sp) + NUM_IONS"
  by (simp add: Init_funpow Init_steps_count)

text \<open>
  Claim C1 says that \<open>Init\<close> fills a species with as many particles as its \<open>NUM\<close>
  attribute says. The loop bound of \<open>Init\<close> is the constant \<open>NUM_IONS\<close> for every
  species: the electron species of \<^verbatim>\<open>main\<close>, constructed with \<open>NUM = NUM_ELECTRONS = 80000\<close>
  (the count its statistical weight is computed from), holds 30000 particles after
  \<open>Init\<close>, for every generator and domain.
\<close>

theorem Init_ignores_particle_count:
  "NUM (new_Species ''Electrons'' ME (- QE) w NUM_ELECTRONS ELECTRON_TEMP) = 80000
   \<and> length (part_list (fst (Init rnd d
         (new_Species ''Electrons'' ME (- QE) w NUM_ELECTRONS ELECTRON_TEMP) g))) = 30000"
  by (simp add: Init_count) (simp add: new_Species_def NUM_ELECTRONS_def NUM_IONS_def)

subsection \<open>Use of the generator\<close>

lemma Init_steps_draws:
  assumes "draws rnd g (4 * n) = draws rnd' g' (4 * n)"
  shows "fst ((Init_body rnd d ^^ n) (sp, g)) = fst ((Init_body rnd' d ^^ n) (sp, g'))"
  using assms
proof (induction n arbitrary: sp g g')
  case 0
  then show ?case by simp
next
  case (Suc n)
  have split: "draws r h (4 * Suc n) = draws r h 4 @ draws r (advance r h 4) (4 * n)"
    for r :: "'x \<Rightarrow> real \<times> 'x" and h
    using draws_add [of r h 4 "4 * n"] by simp
  have "draws rnd g 4 @ draws rnd (advance rnd g 4) (4 * n)
        = draws rnd' g' 4 @ draws rnd' (advance rnd' g' 4) (4 * n)"
    using Suc.prems split [of rnd g] split [of rnd' g'] by simp
  then have first: "draws rnd g 4 = draws rnd' g' 4"
    and rest: "draws rnd (advance rnd g 4) (4 * n) = draws rnd' (advance rnd' g' 4) (4 * n)"
    by simp_all
  have one: "fst (Init_body rnd d (sp, g)) = fst (Init_body rnd' d (sp, g'))"
    using first by (simp add: Init_body_fst)
  have unfold: "(Init_body r d ^^ Suc n) (sp, h)
          = (Init_body r d ^^ n) (fst (Init_body r d (sp, h)), advance r h 4)"
    for r :: "'x \<Rightarrow> real \<times> 'x" and h
    using Init_body_snd [of r d sp h]
    by (simp add: funpow_swap1 del: advance.simps) (metis prod.collapse)
  show ?case
    using Suc.IH [OF rest] one by (simp only: unfold)
qed

lemma advance_add: "advance rnd g (a + b) = advance rnd (advance rnd g a) b"
  by (induction a arbitrary: g) simp_all

lemma Init_steps_state:
  "snd ((Init_body rnd d ^^ n) (sp, g)) = advance rnd g (4 * n)"
proof (induction n arbitrary: sp g)
  case 0
  then show ?case by simp
next
  case (Suc n)
  have "(Init_body rnd d ^^ Suc n) (sp, g)
          = (Init_body rnd d ^^ n) (fst (Init_body rnd d (sp, g)), advance rnd g 4)"
    using Init_body_snd [of rnd d sp g]
    by (simp add: funpow_swap1 del: advance.simps) (metis prod.collapse)
  moreover have "advance rnd g (4 * Suc n) = advance rnd (advance rnd g 4) (4 * n)"
    using advance_add [of rnd g 4 "4 * n"] by simp
  ultimately show ?case
    using Suc.IH by simp
qed

lemma Init_draws:
  assumes "draws rnd g (4 * NUM_IONS) = draws rnd' g' (4 * NUM_IONS)"
  shows "fst (Init rnd d sp g) = fst (Init rnd' d sp g')"
  using Init_steps_draws [OF assms] by (simp add: Init_funpow)

lemma Init_state: "snd (Init rnd d sp g) = advance rnd g (4 * NUM_IONS)"
  by (simp add: Init_funpow Init_steps_state)

text \<open>
  \<^verbatim>\<open>main\<close> reads the generator only through its first \<open>8 * NUM_IONS\<close> draws (four per
  particle, in the two calls of \<open>Init\<close>): with the same draws the state before the main
  loop and the state after every number of steps are the same.
\<close>

lemma main_reads_draws:
  assumes "draws rnd g (8 * NUM_IONS) = draws rnd' g' (8 * NUM_IONS)"
  shows "main_setup rnd g = main_setup rnd' g'
         \<and> (\<forall>n. main_upto rnd g n = main_upto rnd' g' n)
         \<and> main rnd g = main rnd' g'"
proof -
  have split: "draws r h (8 * NUM_IONS)
                 = draws r h (4 * NUM_IONS) @ draws r (advance r h (4 * NUM_IONS)) (4 * NUM_IONS)"
    for r :: "'x \<Rightarrow> real \<times> 'x" and h
    using draws_add [of r h "4 * NUM_IONS" "4 * NUM_IONS"] by simp
  have "draws rnd g (4 * NUM_IONS) @ draws rnd (advance rnd g (4 * NUM_IONS)) (4 * NUM_IONS)
        = draws rnd' g' (4 * NUM_IONS) @ draws rnd' (advance rnd' g' (4 * NUM_IONS)) (4 * NUM_IONS)"
    using assms split [of rnd g] split [of rnd' g'] by simp
  then have first: "draws rnd g (4 * NUM_IONS) = draws rnd' g' (4 * NUM_IONS)"
    and rest: "draws rnd (advance rnd g (4 * NUM_IONS)) (4 * NUM_IONS)
               = draws rnd' (advance rnd' g' (4 * NUM_IONS)) (4 * NUM_IONS)"
    by simp_all
  have init1: "fst (Init rnd d sp g) = fst (Init rnd' d sp g')" for d sp
    using first by (rule Init_draws)
  have init2: "fst (Init rnd d sp (snd (Init rnd d sp0 g)))
                   = fst (Init rnd' d sp (snd (Init rnd' d sp0 g')))" for d sp sp0
    using Init_draws [OF rest] by (simp add: Init_state)
  have "main_setup rnd g = main_setup rnd' g'"
    by (simp add: main_setup_def Let_def split_beta init1 init2)
  then show ?thesis
    by (simp add: main_def main_upto_def)
qed

subsection \<open>Relaxation solver\<close>

declare SolvePotential_loop.simps [simp del]

lemma fold_add_sum:
  fixes g :: "nat \<Rightarrow> real"
  shows "fold (\<lambda>i s. s + g i) [lo..<hi] a = a + sum g {lo..<hi}"
proof (induction hi)
  case 0
  then show ?case by simp
next
  case (Suc hi)
  then show ?case
    by (cases "lo \<le> hi") (simp_all add: sum.atLeastLessThan_Suc)
qed

lemma L2_norm_eq: "L2_norm d r p = residual_norm d r p"
  using fold_add_sum [of "\<lambda>i. (- r ! i / EPS - (p ! (i - 1) - 2 * p ! i + p ! (i + 1)) / (dx d)\<^sup>2)\<^sup>2"
          1 "ni d - 1" 0]
  by (simp add: L2_norm_def residual_sum_def residual_norm_def Let_def power2_eq_square)

lemma sweeps_Suc: "sweeps d r p (Suc k) = sor_sweep d r (sweeps d r p k)"
  by (simp add: sweeps_def)

lemma SolvePotential_loop_end: "SolvePotential_loop d r 200000 q = (False, q)"
  by (subst SolvePotential_loop.simps) simp

lemma SolvePotential_loop_hit:
  assumes "it < 200000" and "it mod 25 = 0" and "L2_norm d r (sor_sweep d r q) < 1 / 10 ^ 4"
  shows "SolvePotential_loop d r it q = (True, sor_sweep d r q)"
  using assms by (subst SolvePotential_loop.simps) simp

lemma SolvePotential_loop_miss:
  assumes "it < 200000" and "\<not> (it mod 25 = 0 \<and> L2_norm d r (sor_sweep d r q) < 1 / 10 ^ 4)"
  shows "SolvePotential_loop d r it q = SolvePotential_loop d r (Suc it) (sor_sweep d r q)"
  using assms by (subst SolvePotential_loop.simps) auto

lemma SolvePotential_loop_cases:
  assumes "it \<le> 200000"
  shows "(\<exists>k. it \<le> k \<and> k < 200000 \<and> converged_at d r p k
            \<and> (\<forall>j. it \<le> j \<and> j < k \<longrightarrow> \<not> converged_at d r p j)
            \<and> SolvePotential_loop d r it (sweeps d r p it) = (True, sweeps d r p (Suc k)))
       \<or> ((\<forall>k. it \<le> k \<and> k < 200000 \<longrightarrow> \<not> converged_at d r p k)
            \<and> SolvePotential_loop d r it (sweeps d r p it) = (False, sweeps d r p 200000))"
  using assms
proof (induction it rule: inc_induct)
  case base
  have "\<not> converged_at d r p k" if "200000 \<le> k \<and> k < 200000" for k
    using that by linarith
  then show ?case
    by (intro disjI2 conjI allI impI) (simp_all add: SolvePotential_loop_end)
next
  case (step it)
  show ?case
  proof (cases "converged_at d r p it")
    case True
    then have "SolvePotential_loop d r it (sweeps d r p it) = (True, sweeps d r p (Suc it))"
      using step.hyps(2) SolvePotential_loop_hit [of it d r "sweeps d r p it"]
      by (simp add: converged_at_def L2_norm_eq sweeps_Suc)
    then show ?thesis
      using True step.hyps by (intro disjI1 exI [of _ it]) auto
  next
    case False
    then have next_it: "SolvePotential_loop d r it (sweeps d r p it)
                 = SolvePotential_loop d r (Suc it) (sweeps d r p (Suc it))"
      using step.hyps(2) SolvePotential_loop_miss [of it d r "sweeps d r p it"]
      by (simp add: converged_at_def L2_norm_eq sweeps_Suc)
    have below: "\<not> converged_at d r p j" if "it \<le> j" and "\<not> Suc it \<le> j" for j
    proof -
      from that have "j = it" by linarith
      then show ?thesis using False by simp
    qed
    from step.IH show ?thesis
    proof
      assume "\<exists>k. Suc it \<le> k \<and> k < 200000 \<and> converged_at d r p k
            \<and> (\<forall>j. Suc it \<le> j \<and> j < k \<longrightarrow> \<not> converged_at d r p j)
            \<and> SolvePotential_loop d r (Suc it) (sweeps d r p (Suc it)) = (True, sweeps d r p (Suc k))"
      then obtain k where k: "Suc it \<le> k" "k < 200000" "converged_at d r p k"
        "\<forall>j. Suc it \<le> j \<and> j < k \<longrightarrow> \<not> converged_at d r p j"
        "SolvePotential_loop d r (Suc it) (sweeps d r p (Suc it)) = (True, sweeps d r p (Suc k))"
        by blast
      have "\<forall>j. it \<le> j \<and> j < k \<longrightarrow> \<not> converged_at d r p j"
        using k(4) below by blast
      moreover have "it \<le> k"
        using k(1) by linarith
      ultimately show ?thesis
        using k(2,3,5) next_it by (intro disjI1 exI [of _ k]) simp
    next
      assume a: "(\<forall>k. Suc it \<le> k \<and> k < 200000 \<longrightarrow> \<not> converged_at d r p k)
            \<and> SolvePotential_loop d r (Suc it) (sweeps d r p (Suc it)) = (False, sweeps d r p 200000)"
      then have "\<forall>k. it \<le> k \<and> k < 200000 \<longrightarrow> \<not> converged_at d r p k"
        using below by blast
      then show ?thesis
        using a next_it by simp
    qed
  qed
qed

text \<open>
  Claim C4. \<open>SolvePotential\<close> returns \<open>True\<close> exactly when the test succeeds at some
  iteration \<open>k < 200000\<close> with \<open>k mod 25 = 0\<close>, that is when the normalised residual norm
  of the potential after the sweep of that iteration is below \<open>1e-4\<close>; it then returns
  at the first such iteration, with the potential of that moment. When no test succeeds
  it returns \<open>False\<close> together with the potential after all 200000 sweeps.
\<close>

theorem SolvePotential_result:
  "(fst (SolvePotential d p r) \<longleftrightarrow> (\<exists>k<200000. converged_at d r p k))
   \<and> (\<forall>k<200000. converged_at d r p k \<and> (\<forall>j<k. \<not> converged_at d r p j)
          \<longrightarrow> SolvePotential d p r = (True, sweeps d r p (Suc k)))
   \<and> ((\<forall>k<200000. \<not> converged_at d r p k)
          \<longrightarrow> SolvePotential d p r = (False, sweeps d r p 200000))"
proof -
  define N :: nat where "N = 200000"
  have start: "SolvePotential d p r = SolvePotential_loop d r 0 (sweeps d r p 0)"
    by (simp add: SolvePotential_def sweeps_def)
  have cases: "(\<exists>k. k < N \<and> converged_at d r p k \<and> (\<forall>j. j < k \<longrightarrow> \<not> converged_at d r p j)
            \<and> SolvePotential d p r = (True, sweeps d r p (Suc k)))
       \<or> ((\<forall>k. k < N \<longrightarrow> \<not> converged_at d r p k)
            \<and> SolvePotential d p r = (False, sweeps d r p N))"
    using SolvePotential_loop_cases [of 0 d r p] unfolding start N_def by simp
  have "(fst (SolvePotential d p r) \<longleftrightarrow> (\<exists>k<N. converged_at d r p k))
   \<and> (\<forall>k<N. converged_at d r p k \<and> (\<forall>j<k. \<not> converged_at d r p j)
          \<longrightarrow> SolvePotential d p r = (True, sweeps d r p (Suc k)))
   \<and> ((\<forall>k<N. \<not> converged_at d r p k)
          \<longrightarrow> SolvePotential d p r = (False, sweeps d r p N))"
    using cases
  proof
    assume "\<exists>k. k < N \<and> converged_at d r p k \<and> (\<forall>j. j < k \<longrightarrow> \<not> converged_at d r p j)
            \<and> SolvePotential d p r = (True, sweeps d r p (Suc k))"
    then obtain k where k: "k < N" "converged_at d r p k" "\<forall>j. j < k \<longrightarrow> \<not> converged_at d r p j"
      "SolvePotential d p r = (True, sweeps d r p (Suc k))"
      by blast
    have "SolvePotential d p r = (True, sweeps d r p (Suc k'))"
      if "converged_at d r p k' \<and> (\<forall>j<k'. \<not> converged_at d r p j)" for k'
    proof -
      have "\<not> k' < k" using that k(3) by blast
      moreover have "\<not> k < k'" using that k(2) by blast
      ultimately have "k' = k" by linarith
      then show ?thesis
        using k(4) by simp
    qed
    moreover have "fst (SolvePotential d p r)"
      using k(4) by simp
    ultimately show ?thesis
      using k(1,2) by blast
  next
    assume a: "(\<forall>k. k < N \<longrightarrow> \<not> converged_at d r p k)
            \<and> SolvePotential d p r = (False, sweeps d r p N)"
    then have "\<not> fst (SolvePotential d p r)"
      by simp
    then show ?thesis
      using a by blast
  qed
  then show ?thesis
    unfolding N_def .
qed


theorem SolvePotential_result_witness:
  "SolvePotential (make_domain 3 1 0) [5, 0, 9] [0, 0, 0] = (True, [0, 0, 0])"
proof -
  let ?d = "make_domain 3 1 0"
  have one: "[Suc 0..<2] = [Suc 0]"
    by (simp add: numeral_2_eq_2)
  have set_one: "{Suc 0..<2} = {Suc 0}"
    by auto
  have sw: "sweeps ?d [0, 0, 0] [5, 0, 9] (Suc 0) = [0, 0, 0]"
    by (simp add: sweeps_def sor_sweep_def make_domain_def one)
  have "converged_at ?d [0, 0, 0] [5, 0, 9] 0"
    by (simp add: converged_at_def sw residual_norm_def) (simp add: make_domain_def set_one)
  then have "0 < (200000::nat) \<and> converged_at ?d [0, 0, 0] [5, 0, 9] 0
             \<and> (\<forall>j<0. \<not> converged_at ?d [0, 0, 0] [5, 0, 9] j)"
    by simp
  then have "SolvePotential ?d [5, 0, 9] [0, 0, 0] = (True, sweeps ?d [0, 0, 0] [5, 0, 9] (Suc 0))"
    using SolvePotential_result [of ?d "[5, 0, 9]" "[0, 0, 0]"] by blast
  then show ?thesis
    using sw by simp
qed

subsection \<open>Direct solver\<close>

declare backsub.simps [simp del]

lemma forward_step:
  "fold (\<lambda>i (c, x).
            (let id = b ! i - c ! (i - 1) * a ! i
             in (c[i := c ! i / id], x[i := (x ! i - x ! (i - 1) * a ! i) / id])))
        [1..<Suc k] cx
   = (if 1 \<le> k then
        (let cx' = fold (\<lambda>i (c, x).
                     (let id = b ! i - c ! (i - 1) * a ! i
                      in (c[i := c ! i / id], x[i := (x ! i - x ! (i - 1) * a ! i) / id])))
                   [1..<k] cx;
             id = b ! k - fst cx' ! (k - 1) * a ! k
         in ((fst cx')[k := fst cx' ! k / id],
             (snd cx')[k := (snd cx' ! k - snd cx' ! (k - 1) * a ! k) / id]))
      else cx)"
  by (simp add: Let_def split_beta)

lemma thomas_forward_nth:
  assumes "length c = n" and "length x = n" and "k \<le> n"
  shows "length (fst (thomas_forward a b k (c, x))) = n
       \<and> length (snd (thomas_forward a b k (c, x))) = n
       \<and> (\<forall>j<n. fst (thomas_forward a b k (c, x)) ! j = (if j < k then cprime a b c j else c ! j))
       \<and> (\<forall>j<n. snd (thomas_forward a b k (c, x)) ! j
                  = (if j < k then xprime a b c x j else x ! j))"
  using assms(3)
proof (induction k)
  case 0
  then show ?case
    using assms(1,2) by (simp add: thomas_forward_def)
next
  case (Suc k)
  then have IH: "length (fst (thomas_forward a b k (c, x))) = n"
    "length (snd (thomas_forward a b k (c, x))) = n"
    "\<forall>j<n. fst (thomas_forward a b k (c, x)) ! j = (if j < k then cprime a b c j else c ! j)"
    "\<forall>j<n. snd (thomas_forward a b k (c, x)) ! j = (if j < k then xprime a b c x j else x ! j)"
    and k: "k < n"
    by simp_all
  show ?case
  proof (cases "1 \<le> k")
    case False
    then have "k = 0" by simp
    then show ?thesis
      using assms(1,2) by (simp add: thomas_forward_def)
  next
    case True
    then obtain k' where k': "k = Suc k'"
      by (cases k) simp_all
    let ?cx = "thomas_forward a b k (c, x)"
    let ?id = "b ! k - fst ?cx ! (k - 1) * a ! k"
    have unfold: "thomas_forward a b (Suc k) (c, x)
            = ((fst ?cx)[k := fst ?cx ! k / ?id],
               (snd ?cx)[k := (snd ?cx ! k - snd ?cx ! (k - 1) * a ! k) / ?id])"
      using True forward_step [of b a k "(c, x)"] by (simp add: thomas_forward_def Let_def)
    have prev: "fst ?cx ! (k - 1) = cprime a b c k'" "snd ?cx ! (k - 1) = xprime a b c x k'"
      and cur: "fst ?cx ! k = c ! k" "snd ?cx ! k = x ! k"
      using IH(3,4) k k' by simp_all
    show ?thesis
      unfolding unfold
      using IH k prev cur k'
      by (auto simp: nth_list_update less_Suc_eq)
  qed
qed


lemma backsub_last: "n \<le> j + 1 \<Longrightarrow> backsub c x n j = x ! j"
  by (subst backsub.simps) simp

lemma backsub_step: "j + 1 < n \<Longrightarrow> backsub c x n j = x ! j - c ! j * backsub c x n (j + 1)"
  by (subst backsub.simps) simp

lemma back_loop_nth:
  assumes "length x = n" and "m \<le> n - 1"
  shows "length (fold (\<lambda>i x. x[i := x ! i - c ! i * x ! (i + 1)]) (rev [m..<n - 1]) x) = n
       \<and> (\<forall>j<n. fold (\<lambda>i x. x[i := x ! i - c ! i * x ! (i + 1)]) (rev [m..<n - 1]) x ! j
                  = (if m \<le> j then backsub c x n j else x ! j))"
  using assms(2)
proof (induction m rule: inc_induct)
  case base
  have "backsub c x n j = x ! j" if "n - 1 \<le> j" for j
    using that by (intro backsub_last) linarith
  then show ?case
    using assms(1) by simp
next
  case (step m)
  let ?B = "fold (\<lambda>i x. x[i := x ! i - c ! i * x ! (i + 1)]) (rev [Suc m..<n - 1]) x"
  have m: "m + 1 < n"
    using step.hyps(2) by linarith
  have unfold: "fold (\<lambda>i x. x[i := x ! i - c ! i * x ! (i + 1)]) (rev [m..<n - 1]) x
                  = ?B[m := ?B ! m - c ! m * ?B ! (m + 1)]"
    using step.hyps(2) by (simp add: upt_conv_Cons)
  have len: "length ?B = n"
    and nth: "\<forall>j<n. ?B ! j = (if Suc m \<le> j then backsub c x n j else x ! j)"
    using step.IH by simp_all
  have at_m: "?B ! m = x ! m" and at_next: "?B ! (m + 1) = backsub c x n (m + 1)"
    using nth m by simp_all
  have new: "?B ! m - c ! m * ?B ! (m + 1) = backsub c x n m"
    using at_m at_next backsub_step [OF m, of c x] by simp
  show ?case
    unfolding unfold new
    using len nth m by (auto simp: nth_list_update le_Suc_eq)
qed

lemma thomas_back_nth:
  assumes "length x = n" and "j < n"
  shows "length (thomas_back c n x) = n" and "thomas_back c n x ! j = backsub c x n j"
  using back_loop_nth [OF assms(1), of 0 c] assms(2) by (simp_all add: thomas_back_def)


lemma fold_triple:
  "fold (\<lambda>i (a, b, c). (a[i := u], b[i := v], c[i := w])) js (a, b, c)
   = (fold (\<lambda>i a. a[i := u]) js a, fold (\<lambda>i b. b[i := v]) js b, fold (\<lambda>i c. c[i := w]) js c)"
  by (induction js arbitrary: a b c) simp_all

lemma coefficient_row:
  assumes "1 \<le> n"
  shows "(fold (\<lambda>i a. a[i := inner]) [1..<n - 1] (replicate n 0))[0 := edge, n - 1 := edge]
         = dirichlet_row n inner edge"
proof (intro nth_equalityI)
  show "length ((fold (\<lambda>i a. a[i := inner]) [1..<n - 1] (replicate n 0))[0 := edge, n - 1 := edge])
        = length (dirichlet_row n inner edge)"
    by (simp add: dirichlet_row_def)
next
  fix i
  assume "i < length ((fold (\<lambda>i a. a[i := inner]) [1..<n - 1] (replicate n 0))[0 := edge, n - 1 := edge])"
  then have i: "i < n" by simp
  then show "(fold (\<lambda>i a. a[i := inner]) [1..<n - 1] (replicate n 0))[0 := edge, n - 1 := edge] ! i
             = dirichlet_row n inner edge ! i"
    using fold_upd_nth [of i "replicate n 0" "\<lambda>i. inner" 1 "n - 1"]
    by (auto simp: dirichlet_row_def nth_list_update)
qed

lemma rhs_row:
  assumes "1 \<le> ni d" and "length x = ni d"
  shows "(fold (\<lambda>i x. x[i := - r ! i * (dx d * dx d) / EPS]) [1..<ni d - 1] x)[0 := 0, ni d - 1 := 0]
         = poisson_rhs d r"
proof (intro nth_equalityI)
  show "length ((fold (\<lambda>i x. x[i := - r ! i * (dx d * dx d) / EPS]) [1..<ni d - 1] x)
                  [0 := 0, ni d - 1 := 0]) = length (poisson_rhs d r)"
    using assms(2) by (simp add: poisson_rhs_def)
next
  fix i
  assume "i < length ((fold (\<lambda>i x. x[i := - r ! i * (dx d * dx d) / EPS]) [1..<ni d - 1] x)
                  [0 := 0, ni d - 1 := 0])"
  then have i: "i < ni d" using assms(2) by simp
  then show "(fold (\<lambda>i x. x[i := - r ! i * (dx d * dx d) / EPS]) [1..<ni d - 1] x)
                  [0 := 0, ni d - 1 := 0] ! i = poisson_rhs d r ! i"
    using fold_upd_nth [of i x "\<lambda>i. - r ! i * (dx d * dx d) / EPS" 1 "ni d - 1"] assms(2)
    by (auto simp: poisson_rhs_def nth_list_update)
qed

lemma SolvePotentialDirect_unfold:
  assumes "1 \<le> ni d" and "length x = ni d"
  shows "SolvePotentialDirect d x r =
           (True, thomas_back
                    (fst (thomas_forward (dirichlet_row (ni d) 1 0) (dirichlet_row (ni d) (- 2) 1)
                            (ni d) (dirichlet_row (ni d) 1 0, poisson_rhs d r)))
                    (ni d)
                    (snd (thomas_forward (dirichlet_row (ni d) 1 0) (dirichlet_row (ni d) (- 2) 1)
                            (ni d) (dirichlet_row (ni d) 1 0, poisson_rhs d r))))"
proof -
  have z: "dirichlet_row (ni d) inner edge ! 0 = edge" for inner edge :: real
    using assms(1) by (simp add: dirichlet_row_def)
  have c3: "(dirichlet_row (ni d) 1 0)[0 := 0 / 1] = dirichlet_row (ni d) 1 (0::real)"
    using z [of 1 0] by (metis div_0 list_update_id)
  have p0: "poisson_rhs d r ! 0 = 0"
    using assms(1) by (simp add: poisson_rhs_def)
  have x3: "(poisson_rhs d r)[0 := 0 / 1] = poisson_rhs d r"
    using p0 by (metis div_0 list_update_id)
  show ?thesis
    unfolding SolvePotentialDirect_def Let_def fold_triple prod.case
      coefficient_row [OF assms(1)] rhs_row [OF assms] z p0 c3 x3
    by (simp only: case_prod_unfold)
qed


lemma dirichlet_row_nth:
  "i < n \<Longrightarrow> dirichlet_row n inner edge ! i = (if i = 0 \<or> i = n - 1 then edge else inner)"
  by (simp add: dirichlet_row_def)

lemma length_dirichlet_row [simp]: "length (dirichlet_row n inner edge) = n"
  by (simp add: dirichlet_row_def)

lemma poisson_rhs_nth:
  "i < ni d \<Longrightarrow> poisson_rhs d r ! i
     = (if i = 0 \<or> i = ni d - 1 then 0 else - r ! i * (dx d * dx d) / EPS)"
  by (simp add: poisson_rhs_def)

lemma length_poisson_rhs [simp]: "length (poisson_rhs d r) = ni d"
  by (simp add: poisson_rhs_def)

lemma cprime_bounds:
  assumes "i + 1 < n"
  shows "- 1 < cprime (dirichlet_row n 1 0) (dirichlet_row n (- 2) 1) (dirichlet_row n 1 0) i
       \<and> cprime (dirichlet_row n 1 0) (dirichlet_row n (- 2) 1) (dirichlet_row n 1 0) i \<le> 0"
  using assms
proof (induction i)
  case 0
  then show ?case
    by (simp add: dirichlet_row_nth)
next
  case (Suc i)
  let ?C = "cprime (dirichlet_row n 1 0) (dirichlet_row n (- 2) 1) (dirichlet_row n 1 0)"
  have IH: "- 1 < ?C i" "?C i \<le> 0"
    using Suc by simp_all
  have inner: "Suc i < n" "Suc i \<noteq> n - 1"
    using Suc.prems by linarith+
  have eq: "?C (Suc i) = 1 / (- 2 - ?C i)"
    using inner by (simp add: dirichlet_row_nth)
  have neg: "- 2 - ?C i < - 1" and low: "- 2 \<le> - 2 - ?C i"
    using IH by linarith+
  have "- 1 < 1 / (- 2 - ?C i)"
    using neg by (simp add: field_simps)
  moreover have "1 / (- 2 - ?C i) \<le> 0"
    using neg by (simp add: field_simps)
  ultimately show ?case
    unfolding eq by simp
qed

lemma xprime_zero:
  assumes "\<forall>j<n. x ! j = 0" and "i < n"
  shows "xprime a b c x i = 0"
  using assms(2) by (induction i) (simp_all add: assms(1))

lemma backsub_zero:
  "\<forall>j<n. x ! j = 0 \<Longrightarrow> j < n \<Longrightarrow> backsub c x n j = 0"
proof (induction c x n j rule: backsub.induct)
  case (1 c x n j)
  have here: "x ! j = 0"
    using "1.prems" by blast
  show ?case
  proof (cases "j + 1 < n")
    case True
    then have "backsub c x n (j + 1) = 0"
      using "1.IH" "1.prems"(1) by blast
    then show ?thesis
      using True here by (simp add: backsub_step)
  next
    case False
    then show ?thesis
      using here by (simp add: backsub_last)
  qed
qed


text \<open>
  Claim C3. On a domain with at least two nodes and a non-zero spacing, for every charge
  density \<open>r\<close> (exact real arithmetic), \<open>SolvePotentialDirect\<close> returns \<open>True\<close> and a
  potential of \<open>ni\<close> entries that is zero at both boundary nodes and satisfies
  \<open>- (phi[i-1] - 2 * phi[i] + phi[i+1]) / dx\<^sup>2 = rho[i] / EPS\<close> at every interior node;
  a charge density that is zero everywhere gives a potential that is zero everywhere.
\<close>

theorem SolvePotentialDirect_correct:
  assumes "2 \<le> ni d" and "dx d \<noteq> 0" and "length x = ni d" and "length r = ni d"
  shows "fst (SolvePotentialDirect d x r)
       \<and> length (snd (SolvePotentialDirect d x r)) = ni d
       \<and> snd (SolvePotentialDirect d x r) ! 0 = 0
       \<and> snd (SolvePotentialDirect d x r) ! (ni d - 1) = 0
       \<and> (\<forall>i. 0 < i \<and> i < ni d - 1 \<longrightarrow>
             - (snd (SolvePotentialDirect d x r) ! (i - 1)
                 - 2 * snd (SolvePotentialDirect d x r) ! i
                 + snd (SolvePotentialDirect d x r) ! (i + 1)) / (dx d)\<^sup>2 = r ! i / EPS)
       \<and> (r = replicate (ni d) 0 \<longrightarrow> snd (SolvePotentialDirect d x r) = replicate (ni d) 0)"
proof -
  define n where "n = ni d"
  define A where "A = dirichlet_row n 1 0"
  define B where "B = dirichlet_row n (- 2) 1"
  define D where "D = poisson_rhs d r"
  define C where "C = cprime A B A"
  define X where "X = xprime A B A D"
  define c4 where "c4 = fst (thomas_forward A B n (A, D))"
  define x4 where "x4 = snd (thomas_forward A B n (A, D))"
  define Y where "Y = backsub c4 x4 n"
  define y where "y = snd (SolvePotentialDirect d x r)"
  have n2: "2 \<le> n" and n1: "1 \<le> ni d"
    using assms(1) by (simp_all add: n_def)
  have run: "SolvePotentialDirect d x r = (True, thomas_back c4 n x4)"
    using SolvePotentialDirect_unfold [OF n1 assms(3)]
    by (simp add: c4_def x4_def A_def B_def D_def n_def)
  have lenA: "length A = n" and lenD: "length D = n"
    by (simp_all add: A_def D_def n_def)
  have fw: "length c4 = n" "length x4 = n" "\<forall>j<n. c4 ! j = C j" "\<forall>j<n. x4 ! j = X j"
    using thomas_forward_nth [OF lenA lenD order_refl, of A B]
    by (simp_all add: c4_def x4_def C_def X_def)
  have y_nth: "y ! j = Y j" if "j < n" for j
    using thomas_back_nth(2) [OF fw(2) that, of c4] run by (simp add: y_def Y_def)
  have y_len: "length y = n"
    using thomas_back_nth(1) [OF fw(2), of 0 c4] n2 run by (simp add: y_def)
  have Y_step: "Y j = X j - C j * Y (j + 1)" if "j + 1 < n" for j
    using backsub_step [OF that, of c4 x4] fw(3,4) that by (simp add: Y_def)
  have Y_last: "Y (n - 1) = X (n - 1)"
    using backsub_last [of n "n - 1" c4 x4] fw(4) n2 by (simp add: Y_def)
  have C0: "C 0 = 0" and X0: "X 0 = 0"
    using n2 by (simp_all add: C_def X_def A_def D_def dirichlet_row_nth poisson_rhs_nth n_def)
  have Cb: "- 1 < C i \<and> C i \<le> 0" if "i + 1 < n" for i
    using cprime_bounds [OF that] by (simp add: C_def A_def B_def)
  have first: "y ! 0 = 0"
    using y_nth [of 0] Y_step [of 0] C0 X0 n2 by simp
  have last: "y ! (n - 1) = 0"
  proof -
    obtain m where m: "n - 1 = Suc m"
      using n2 by (cases "n - 1") simp_all
    have "X (Suc m) = 0"
      using m n2
      by (simp add: X_def A_def B_def D_def dirichlet_row_nth poisson_rhs_nth n_def)
    then show ?thesis
      using y_nth [of "n - 1"] Y_last m n2 by simp
  qed
  have stencil: "Y (i - 1) - 2 * Y i + Y (i + 1) = D ! i" if i: "0 < i \<and> i < n - 1" for i
  proof -
    obtain i' where i': "i = Suc i'"
      using i by (cases i) simp_all
    have range: "i' + 1 < n" "i + 1 < n" "i < n" "i \<noteq> 0" "i \<noteq> n - 1"
      using i i' by linarith+
    define q where "q = - 2 - C i'"
    have q: "q < - 1"
      using Cb [OF range(1)] by (simp add: q_def)
    have Ci: "C i = 1 / q"
      using range by (simp add: i' C_def A_def B_def q_def dirichlet_row_nth)
    have Xi: "X i = (D ! i - X i') / q"
      using range by (simp add: i' X_def C_def A_def B_def q_def dirichlet_row_nth)
    have Yp: "Y i' = X i' - C i' * Y i"
      using Y_step [OF range(1)] i' by simp
    have Yi: "Y i = (D ! i - X i') / q - 1 / q * Y (i + 1)"
      using Y_step [OF range(2)] Ci Xi by simp
    have qn: "q \<noteq> 0"
      using q by simp
    have "q * Y i = q * ((D ! i - X i') / q) - q * (1 / q * Y (i + 1))"
      using Yi by (simp add: right_diff_distrib)
    then have qY: "q * Y i = D ! i - X i' - Y (i + 1)"
      using qn by simp
    have "Y i' - 2 * Y i + Y (i + 1) = X i' + q * Y i + Y (i + 1)"
      using Yp by (simp add: q_def algebra_simps)
    then show ?thesis
      using qY i' by simp
  qed
  have poisson: "- (y ! (i - 1) - 2 * y ! i + y ! (i + 1)) / (dx d)\<^sup>2 = r ! i / EPS"
    if i: "0 < i \<and> i < ni d - 1" for i
  proof -
    have range: "i - 1 < n" "i < n" "i + 1 < n" "i \<noteq> 0" "i \<noteq> ni d - 1"
      unfolding n_def using i by linarith+
    have "y ! (i - 1) - 2 * y ! i + y ! (i + 1) = D ! i"
      using stencil [of i] i y_nth range by (simp add: n_def)
    also have "D ! i = - r ! i * (dx d * dx d) / EPS"
      using range by (simp add: D_def poisson_rhs_nth n_def)
    finally show ?thesis
      using assms(2) by (simp add: power2_eq_square)
  qed
  have zero: "y = replicate (ni d) 0" if "r = replicate (ni d) 0"
  proof (intro nth_equalityI)
    show "length y = length (replicate (ni d) (0::real))"
      using y_len by (simp add: n_def)
  next
    fix j assume "j < length y"
    then have j: "j < n" using y_len by simp
    have "\<forall>k<n. D ! k = 0"
      using that by (simp add: D_def poisson_rhs_nth n_def)
    then have "\<forall>k<n. x4 ! k = 0"
      using fw(4) xprime_zero [of n D _ A B A] by (simp add: X_def)
    then have "Y j = 0"
      using j unfolding Y_def by (rule backsub_zero)
    then show "y ! j = replicate (ni d) 0 ! j"
      using y_nth [OF j] j by (simp add: n_def)
  qed
  have "fst (SolvePotentialDirect d x r)"
    using run by simp
  then show ?thesis
    using y_len first last poisson zero unfolding y_def n_def by blast
qed


theorem SolvePotentialDirect_correct_witness:
  "snd (SolvePotentialDirect (make_domain 3 1 0) [7, 7, 7] [0, EPS, 0]) ! 0 = 0
   \<and> snd (SolvePotentialDirect (make_domain 3 1 0) [7, 7, 7] [0, EPS, 0]) ! 1 = 1 / 2
   \<and> snd (SolvePotentialDirect (make_domain 3 1 0) [7, 7, 7] [0, EPS, 0]) ! 2 = 0"
proof -
  let ?d = "make_domain 3 1 0"
  let ?y = "snd (SolvePotentialDirect ?d [7, 7, 7] [0, EPS, 0])"
  have hyps: "2 \<le> ni ?d" "dx ?d \<noteq> 0" "length [7, 7, 7 :: real] = ni ?d"
    "length [0, EPS, 0] = ni ?d"
    by (simp_all add: make_domain_def)
  have ends: "?y ! 0 = 0" "?y ! (ni ?d - 1) = 0"
    and inner: "\<forall>i. 0 < i \<and> i < ni ?d - 1 \<longrightarrow>
                  - (?y ! (i - 1) - 2 * ?y ! i + ?y ! (i + 1)) / (dx ?d)\<^sup>2 = [0, EPS, 0] ! i / EPS"
    using SolvePotentialDirect_correct [OF hyps] by blast+
  have "- (?y ! (1 - 1) - 2 * ?y ! 1 + ?y ! (1 + 1)) / (dx ?d)\<^sup>2 = [0, EPS, 0] ! 1 / EPS"
    using inner by (rule allE [of _ 1]) (simp add: make_domain_def)
  then have "?y ! 1 = 1 / 2"
    using ends by (simp add: make_domain_def EPS_def numeral_2_eq_2)
  then show ?thesis
    using ends by (simp add: make_domain_def)
qed

end
